theory Spec2Isabelle
  imports Main "HOL-Library.Multiset"
begin

section \<open>The parallel solver interface of QhX (iparallelization_solver.py)\<close>

text \<open>
  The module defines the class \<open>IParallelSolver\<close>: a pool of worker processes that
  drain a shared queue of set IDs and run a fixed pipeline of overridable hooks on each
  ID. The embedding keeps the source's structure:
  \<^item> the object's attributes are the record \<open>solver\<close> (the attributes \<open>results_\<close>,
    \<open>set_ids_\<close> and \<open>save_all_results_\<close> are the fields \<open>results_queue\<close>,
    \<open>set_ids_queue\<close> and \<open>save_all_results\<close>: a name cannot end in an underscore);
  \<^item> the overridable methods are the record \<open>hooks\<close>, each hook giving either the
    exception it raises (\<open>Inl\<close>) or its return value (\<open>Inr\<close>);
  \<^item> the body of the loop of \<open>process_wrapper\<close> is a program in an exception and state
    monad, with \<open>try\<close>/\<open>except\<close>/\<open>finally\<close> as combinators;
  \<^item> the worker processes are interleaved by a schedule, one atomic step per access to a
    shared queue;
  \<^item> the calls a worker makes and the errors it prints are recorded in its trace.

  Both queues are \<open>multiprocessing.Queue\<close> objects, taken as first-in first-out
  queues. \<open>put()\<close> hands the item to a feeder thread and does not raise. \<open>get()\<close> is the
  blocking call of the source (no timeout): on a queue that holds nothing it waits for an
  item. \<open>empty()\<close> looks at the pipe only, so it can answer true while items that were put
  are still with the feeder thread; the schedule says when that happens.

  An exception is an instance of Python's \<open>Exception\<close>, which is what the handlers of
  the source catch. What a hook returns or raises is a function of its arguments. Of
  the \<open>print\<close> calls only the error reports of the three handlers are recorded.
\<close>

subsection \<open>Data\<close>

type_synonym set_id = string

datatype exn = Exception string

datatype event =
    Dequeued set_id
  | BeginLogging set_id
  | Compute set_id
  | Aggregate
  | ResultPut string
  | StopLogging
  | SaveLocal set_id string
  | ErrRetrieving exn
  | ErrProcessing set_id exn
  | ErrCleanup set_id exn

record solver =
  num_workers :: int
  results_queue :: "string list"
  set_ids_queue :: "set_id list"
  save_all_results :: bool

definition DEFAULT_NUM_WORKERS :: int where
  "DEFAULT_NUM_WORKERS = 4"

text \<open>\<open>__init__\<close>: both queues are created empty and the flag is cleared.\<close>

definition init :: "int \<Rightarrow> solver" where
  "init n = \<lparr>num_workers = n, results_queue = [], set_ids_queue = [], save_all_results = False\<rparr>"

definition IParallelSolver :: solver where
  "IParallelSolver = init DEFAULT_NUM_WORKERS"

subsection \<open>Hooks\<close>

text \<open>The methods of the pipeline, which a subclass overrides.\<close>

record 'r hooks =
  maybe_begin_logging :: "set_id \<Rightarrow> exn + unit"
  get_process_function_result :: "set_id \<Rightarrow> exn + 'r"
  aggregate_process_function_result :: "'r \<Rightarrow> exn + string"
  maybe_stop_logging :: "unit \<Rightarrow> exn + unit"
  maybe_save_local_results :: "set_id \<Rightarrow> string \<Rightarrow> exn + unit"

text \<open>The placeholder bodies of the interface itself: none of them raises.\<close>

definition placeholder_hooks :: "(string \<times> string) list hooks" where
  "placeholder_hooks = \<lparr>
     maybe_begin_logging = (\<lambda>set_id. Inr ()),
     get_process_function_result = (\<lambda>set_id. Inr [(''result'', ''sample result'')]),
     aggregate_process_function_result = (\<lambda>result. Inr ''Aggregated result string.''),
     maybe_stop_logging = (\<lambda>u. Inr ()),
     maybe_save_local_results = (\<lambda>set_id res_string. Inr ()) \<rparr>"

subsection \<open>Exceptions and local state of one pipeline run\<close>

record task_state =
  res_string :: string
  out :: "event list"
  results_q :: "string list"

type_synonym 'a prog = "task_state \<Rightarrow> (exn + 'a) \<times> task_state"

definition skip :: "unit prog" where
  "skip = (\<lambda>t. (Inr (), t))"

definition then_do :: "'a prog \<Rightarrow> ('a \<Rightarrow> 'b prog) \<Rightarrow> 'b prog" where
  "then_do m f = (\<lambda>t. case m t of (Inl e, t') \<Rightarrow> (Inl e, t') | (Inr a, t') \<Rightarrow> f a t')"

definition try_except :: "'a prog \<Rightarrow> (exn \<Rightarrow> 'a prog) \<Rightarrow> 'a prog" where
  "try_except m handler = (\<lambda>t. case m t of (Inl e, t') \<Rightarrow> handler e t' | (Inr a, t') \<Rightarrow> (Inr a, t'))"

text \<open>
  \<open>finally\<close> runs on every exit of the protected block; an exception of the \<open>finally\<close>
  block itself replaces the outcome of the block.
\<close>

definition try_finally :: "'a prog \<Rightarrow> unit prog \<Rightarrow> 'a prog" where
  "try_finally m fin = (\<lambda>t. case m t of (r, t') \<Rightarrow>
     (case fin t' of (Inl e, t'') \<Rightarrow> (Inl e, t'') | (Inr u, t'') \<Rightarrow> (r, t'')))"

definition emit :: "event \<Rightarrow> unit prog" where
  "emit ev = (\<lambda>t. (Inr (), t\<lparr>out := out t @ [ev]\<rparr>))"

text \<open>A call of a hook: the call is recorded, then the hook returns or raises.\<close>

definition call :: "event \<Rightarrow> exn + 'a \<Rightarrow> 'a prog" where
  "call ev outcome = (\<lambda>t. (outcome, t\<lparr>out := out t @ [ev]\<rparr>))"

definition assign_res_string :: "string \<Rightarrow> unit prog" where
  "assign_res_string r = (\<lambda>t. (Inr (), t\<lparr>res_string := r\<rparr>))"

definition read_res_string :: "string prog" where
  "read_res_string = (\<lambda>t. (Inr (res_string t), t))"

definition results_put :: "string \<Rightarrow> unit prog" where
  "results_put r = (\<lambda>t. (Inr (), t\<lparr>results_q := results_q t @ [r], out := out t @ [ResultPut r]\<rparr>))"

subsection \<open>The per-task pipeline (process_wrapper, lines 69 to 86)\<close>

definition try_block :: "'r hooks \<Rightarrow> bool \<Rightarrow> set_id \<Rightarrow> unit prog" where
  "try_block h save set_id =
     then_do (call (BeginLogging set_id) (maybe_begin_logging h set_id)) (\<lambda>u.
     then_do (call (Compute set_id) (get_process_function_result h set_id)) (\<lambda>result.
     then_do (call Aggregate (aggregate_process_function_result h result)) (\<lambda>r.
     then_do (assign_res_string r) (\<lambda>u.
     if save then results_put r else skip))))"

definition finally_block :: "'r hooks \<Rightarrow> set_id \<Rightarrow> unit prog" where
  "finally_block h set_id =
     try_except
       (then_do (call StopLogging (maybe_stop_logging h ())) (\<lambda>u.
        then_do read_res_string (\<lambda>r.
        call (SaveLocal set_id r) (maybe_save_local_results h set_id r))))
       (\<lambda>e. emit (ErrCleanup set_id e))"

definition pipeline :: "'r hooks \<Rightarrow> bool \<Rightarrow> set_id \<Rightarrow> unit prog" where
  "pipeline h save set_id =
     then_do (assign_res_string []) (\<lambda>u.
     try_finally
       (try_except (try_block h save set_id) (\<lambda>e. emit (ErrProcessing set_id e)))
       (finally_block h set_id))"

subsection \<open>One worker process (process_wrapper)\<close>

text \<open>
  The control points of the loop: at the loop test, at the call of \<open>get()\<close> after the
  test found the queue non-empty, holding a dequeued ID before its pipeline, returned
  from the function, or killed by an exception that left the function.
\<close>

datatype pc = AtCheck | AtGet | Holding set_id | Done | Crashed exn

record worker =
  pc :: pc
  trace :: "event list"

definition fresh_worker :: worker where
  "fresh_worker = \<lparr>pc = AtCheck, trace = []\<rparr>"

definition run_task :: "'r hooks \<Rightarrow> set_id \<Rightarrow> solver \<Rightarrow> worker \<Rightarrow> solver \<times> worker" where
  "run_task h set_id s w =
     (case pipeline h (save_all_results s) set_id
             \<lparr>res_string = [], out = trace w, results_q = results_queue s\<rparr> of
        (Inr u, t) \<Rightarrow> (s\<lparr>results_queue := results_q t\<rparr>, \<lparr>pc = AtCheck, trace = out t\<rparr>)
      | (Inl e, t) \<Rightarrow> (s\<lparr>results_queue := results_q t\<rparr>, \<lparr>pc = Crashed e, trace = out t\<rparr>))"

text \<open>
  One atomic step of a worker. At \<open>AtGet\<close> on an empty queue the worker waits inside
  \<open>get()\<close>: the step changes nothing.
\<close>

definition worker_step :: "'r hooks \<Rightarrow> solver \<Rightarrow> worker \<Rightarrow> solver \<times> worker" where
  "worker_step h s w =
     (case pc w of
        AtCheck \<Rightarrow> (if set_ids_queue s = [] then (s, w\<lparr>pc := Done\<rparr>) else (s, w\<lparr>pc := AtGet\<rparr>))
      | AtGet \<Rightarrow>
          (case set_ids_queue s of
             [] \<Rightarrow> (s, w)
           | set_id # rest \<Rightarrow>
               (s\<lparr>set_ids_queue := rest\<rparr>, \<lparr>pc = Holding set_id, trace = trace w @ [Dequeued set_id]\<rparr>))
      | Holding set_id \<Rightarrow> run_task h set_id s w
      | Done \<Rightarrow> (s, w)
      | Crashed e \<Rightarrow> (s, w))"

text \<open>
  \<open>get()\<close> raising: the handler prints the error and breaks out of the loop. Whether the
  item at the head of the queue was consumed by the failed call is left to the caller.
\<close>

definition get_raises :: "exn \<Rightarrow> bool \<Rightarrow> solver \<Rightarrow> worker \<Rightarrow> solver \<times> worker" where
  "get_raises e lost s w =
     (case pc w of
        AtGet \<Rightarrow> (s\<lparr>set_ids_queue := (if lost then drop 1 (set_ids_queue s) else set_ids_queue s)\<rparr>,
                  \<lparr>pc = Done, trace = trace w @ [ErrRetrieving e]\<rparr>)
      | AtCheck \<Rightarrow> (s, w)
      | Holding set_id \<Rightarrow> (s, w)
      | Done \<Rightarrow> (s, w)
      | Crashed e' \<Rightarrow> (s, w))"

text \<open>
  The loop test answered by an \<open>empty()\<close> that says true although set IDs are queued
  (they are still with the feeder thread of the process that put them): the worker leaves
  the loop.
\<close>

definition sees_empty :: "solver \<Rightarrow> worker \<Rightarrow> solver \<times> worker" where
  "sees_empty s w =
     (case pc w of
        AtCheck \<Rightarrow> (s, w\<lparr>pc := Done\<rparr>)
      | AtGet \<Rightarrow> (s, w)
      | Holding set_id \<Rightarrow> (s, w)
      | Done \<Rightarrow> (s, w)
      | Crashed e \<Rightarrow> (s, w))"

subsection \<open>The pool of workers\<close>

text \<open>
  A schedule is a list of actions: a step of worker \<open>i\<close> with \<open>empty()\<close> and \<open>get()\<close>
  answering for the queue as it is, a \<open>get()\<close> of worker \<open>i\<close> that raises, or a loop
  test of worker \<open>i\<close> that finds the queue empty when it is not.
\<close>

record pool =
  shared :: solver
  workers :: "worker list"

datatype action = Run nat | GetRaises nat exn bool | SeesEmpty nat

definition at_worker :: "nat \<Rightarrow> (solver \<Rightarrow> worker \<Rightarrow> solver \<times> worker) \<Rightarrow> pool \<Rightarrow> pool" where
  "at_worker i f p =
     (if i < length (workers p)
      then (case f (shared p) (workers p ! i) of
              (s', w') \<Rightarrow> \<lparr>shared = s', workers = (workers p)[i := w']\<rparr>)
      else p)"

fun pool_step :: "'r hooks \<Rightarrow> action \<Rightarrow> pool \<Rightarrow> pool" where
  "pool_step h (Run i) p = at_worker i (worker_step h) p"
| "pool_step h (GetRaises i e lost) p = at_worker i (get_raises e lost) p"
| "pool_step h (SeesEmpty i) p = at_worker i sees_empty p"

definition run_sched :: "'r hooks \<Rightarrow> action list \<Rightarrow> pool \<Rightarrow> pool" where
  "run_sched h sched p = fold (pool_step h) sched p"

text \<open>
  A worker is quiescent when no step of its own changes anything: it has terminated, or
  it waits in \<open>get()\<close> on the empty queue.
\<close>

definition terminated :: "worker \<Rightarrow> bool" where
  "terminated w = (case pc w of Done \<Rightarrow> True | Crashed e \<Rightarrow> True
                   | AtCheck \<Rightarrow> False | AtGet \<Rightarrow> False | Holding set_id \<Rightarrow> False)"

definition blocked :: "solver \<Rightarrow> worker \<Rightarrow> bool" where
  "blocked s w = (pc w = AtGet \<and> set_ids_queue s = [])"

definition quiescent :: "solver \<Rightarrow> worker \<Rightarrow> bool" where
  "quiescent s w = (terminated w \<or> blocked s w)"

definition can_move :: "nat \<Rightarrow> pool \<Rightarrow> bool" where
  "can_move i p = (i < length (workers p) \<and> \<not> quiescent (shared p) (workers p ! i))"

fun rank :: "pc \<Rightarrow> nat" where
  "rank AtCheck = 2"
| "rank AtGet = 1"
| "rank (Holding set_id) = 3"
| "rank Done = 0"
| "rank (Crashed e) = 0"

definition remaining :: "nat \<Rightarrow> pool \<Rightarrow> nat" where
  "remaining i p = 3 * length (set_ids_queue (shared p)) + rank (pc (workers p ! i))"

text \<open>
  Letting worker \<open>i\<close> run alone until it is quiescent. Every step that changes
  something shortens the queue or moves the worker closer to the loop test, which is
  what \<open>remaining\<close> counts.
\<close>

function run_alone :: "'r hooks \<Rightarrow> nat \<Rightarrow> pool \<Rightarrow> pool" where
  "run_alone h i p = (if can_move i p then run_alone h i (pool_step h (Run i) p) else p)"
  by pat_completeness auto

termination run_alone
proof (relation "measure (\<lambda>(h, i, p). remaining i p)")
  show "wf (measure (\<lambda>(h :: 'r hooks, i, p). remaining i p))"
    by simp
next
  fix h :: "'r hooks" and i p
  assume "can_move i p"
  then have i: "i < length (workers p)"
    and q: "\<not> quiescent (shared p) (workers p ! i)"
    by (simp_all add: can_move_def)
  obtain s' w' where sw: "worker_step h (shared p) (workers p ! i) = (s', w')"
    by (cases "worker_step h (shared p) (workers p ! i)")
  have "3 * length (set_ids_queue s') + rank (pc w')
          < 3 * length (set_ids_queue (shared p)) + rank (pc (workers p ! i))"
  proof (cases "pc (workers p ! i)")
    case AtCheck
    with sw show ?thesis
      by (auto simp: worker_step_def split: if_splits)
  next
    case AtGet
    with q obtain x xs where "set_ids_queue (shared p) = x # xs"
      by (cases "set_ids_queue (shared p)") (auto simp: quiescent_def blocked_def)
    with AtGet sw show ?thesis
      by (auto simp: worker_step_def)
  next
    case (Holding set_id)
    with sw have "run_task h set_id (shared p) (workers p ! i) = (s', w')"
      by (simp add: worker_step_def)
    then have "set_ids_queue s' = set_ids_queue (shared p) \<and> rank (pc w') \<le> 2"
      by (auto simp: run_task_def split: prod.splits sum.splits)
    with Holding show ?thesis by simp
  next
    case Done
    with q show ?thesis by (simp add: quiescent_def terminated_def)
  next
    case (Crashed e)
    with q show ?thesis by (simp add: quiescent_def terminated_def)
  qed
  with i sw show "((h, i, pool_step h (Run i) p), (h, i, p)) \<in> measure (\<lambda>(h, i, p). remaining i p)"
    by (simp add: remaining_def at_worker_def)
qed

declare run_alone.simps [simp del]

subsection \<open>The orchestrator (process_ids)\<close>

text \<open>Lines 98 to 103: the flag is set and the queue is filled.\<close>

definition seed :: "string option \<Rightarrow> set_id list \<Rightarrow> solver \<Rightarrow> solver" where
  "seed results_file set_ids s =
     s\<lparr>save_all_results := (results_file \<noteq> None),
       set_ids_queue := set_ids_queue s @ set_ids\<rparr>"

text \<open>Line 106: one process per element of \<open>range(self.num_workers)\<close>.\<close>

definition spawn :: "solver \<Rightarrow> pool" where
  "spawn s = \<lparr>shared = s, workers = replicate (nat (num_workers s)) fresh_worker\<rparr>"

text \<open>
  Lines 107 to 112. The processes run interleaved as the schedule says; when the
  schedule is used up, every worker that can still move runs on until it is quiescent.
  Any finite interleaving of the workers is a schedule.
\<close>

definition finish :: "'r hooks \<Rightarrow> pool \<Rightarrow> pool" where
  "finish h p = fold (run_alone h) [0..<length (workers p)] p"

definition run_workers :: "'r hooks \<Rightarrow> action list \<Rightarrow> pool \<Rightarrow> pool" where
  "run_workers h sched p = finish h (run_sched h sched p)"

text \<open>
  \<open>join()\<close> returns for a process that has terminated, and only for such a one. A worker
  that has left \<open>process_wrapper\<close> is taken to terminate: the rows it put are taken to
  fit into the pipe of the results queue, so that its feeder thread ends at exit.
\<close>

definition joined :: "pool \<Rightarrow> bool" where
  "joined p = list_all terminated (workers p)"

type_synonym filesystem = "string \<rightharpoonup> string list"

text \<open>Python's truth value of the argument: \<open>None\<close> and the empty string are false.\<close>

fun truthy :: "string option \<Rightarrow> bool" where
  "truthy None = False"
| "truthy (Some path) = (path \<noteq> [])"

text \<open>
  \<open>maybe_save_results\<close>, lines 185 to 189. Each branch prints one line and does nothing
  else: where the saving logic would be, the first branch has a placeholder comment. The
  results queue is not read and no file is written.
\<close>

datatype message = SavingAllResultsTo "string option" | NoResultsFileSpecified

definition maybe_save_results ::
  "string option \<Rightarrow> solver \<times> filesystem \<Rightarrow> message \<times> (solver \<times> filesystem)" where
  "maybe_save_results results_file sf =
     (if truthy results_file then (SavingAllResultsTo results_file, sf)
      else (NoResultsFileSpecified, sf))"

text \<open>
  \<open>process_ids\<close>. The result is \<open>None\<close> when some \<open>join()\<close> never returns, that is
  when a worker waits forever in \<open>get()\<close>. The files are passed along for the sake of
  \<open>maybe_save_results\<close>; nothing in the source writes one.
\<close>

definition process_ids ::
  "'r hooks \<Rightarrow> action list \<Rightarrow> set_id list \<Rightarrow> string option \<Rightarrow> solver \<times> filesystem
     \<Rightarrow> (solver \<times> filesystem) option" where
  "process_ids h sched set_ids results_file = (\<lambda>(s, fs).
     let p = run_workers h sched (spawn (seed results_file set_ids s))
     in if joined p then Some (snd (maybe_save_results results_file (shared p, fs)))
        else None)"

subsection \<open>Reading a run\<close>

text \<open>
  What one pipeline run adds to the trace of its worker and to the results queue.
\<close>

definition blank :: task_state where
  "blank = \<lparr>res_string = [], out = [], results_q = []\<rparr>"

definition task_events :: "'r hooks \<Rightarrow> bool \<Rightarrow> set_id \<Rightarrow> event list" where
  "task_events h save set_id = out (snd (pipeline h save set_id blank))"

definition task_rows :: "'r hooks \<Rightarrow> bool \<Rightarrow> set_id \<Rightarrow> string list" where
  "task_rows h save set_id = results_q (snd (pipeline h save set_id blank))"

text \<open>
  Steps 1 to 3 for one set ID, as the hooks decide them: the aggregated row, or the
  first exception among begin-logging, compute and aggregate.
\<close>

definition try_outcome :: "'r hooks \<Rightarrow> set_id \<Rightarrow> exn + string" where
  "try_outcome h set_id =
     (case maybe_begin_logging h set_id of
        Inl e \<Rightarrow> Inl e
      | Inr u \<Rightarrow>
          (case get_process_function_result h set_id of
             Inl e \<Rightarrow> Inl e
           | Inr result \<Rightarrow> aggregate_process_function_result h result))"

definition succeeded :: "'r hooks \<Rightarrow> set_id \<Rightarrow> bool" where
  "succeeded h set_id = (case try_outcome h set_id of Inl e \<Rightarrow> False | Inr r \<Rightarrow> True)"

definition row_of :: "'r hooks \<Rightarrow> set_id \<Rightarrow> string" where
  "row_of h set_id = (case try_outcome h set_id of Inl e \<Rightarrow> [] | Inr r \<Rightarrow> r)"

fun dequeued_id :: "event \<Rightarrow> set_id list" where
  "dequeued_id (Dequeued x) = [x]"
| "dequeued_id ev = []"

fun begun_id :: "event \<Rightarrow> set_id list" where
  "begun_id (BeginLogging x) = [x]"
| "begun_id ev = []"

fun put_row :: "event \<Rightarrow> string list" where
  "put_row (ResultPut r) = [r]"
| "put_row ev = []"

fun local_save :: "event \<Rightarrow> (set_id \<times> string) list" where
  "local_save (SaveLocal x r) = [(x, r)]"
| "local_save ev = []"

text \<open>
  Over the whole pool: the IDs taken from the queue, the IDs whose pipeline was entered
  (every pipeline run starts with the call of begin-logging) and the rows put.
\<close>

definition dequeued :: "pool \<Rightarrow> set_id list" where
  "dequeued p = concat (map (\<lambda>w. concat (map dequeued_id (trace w))) (workers p))"

definition tasks_run :: "pool \<Rightarrow> set_id list" where
  "tasks_run p = concat (map (\<lambda>w. concat (map begun_id (trace w))) (workers p))"

definition rows_put :: "pool \<Rightarrow> string list" where
  "rows_put p = concat (map (\<lambda>w. concat (map put_row (trace w))) (workers p))"

fun is_run :: "action \<Rightarrow> bool" where
  "is_run (Run i) = True"
| "is_run (GetRaises i e lost) = False"
| "is_run (SeesEmpty i) = False"

definition fault_free :: "action list \<Rightarrow> bool" where
  "fault_free sched = list_all is_run sched"

definition crashed :: "worker \<Rightarrow> bool" where
  "crashed w = (case pc w of Crashed e \<Rightarrow> True | AtCheck \<Rightarrow> False | AtGet \<Rightarrow> False
                | Holding set_id \<Rightarrow> False | Done \<Rightarrow> False)"

text \<open>Subclasses whose hooks raise, for the concrete runs below.\<close>

definition begin_raises :: "(string \<times> string) list hooks" where
  "begin_raises = placeholder_hooks
     \<lparr>maybe_begin_logging := (\<lambda>set_id. Inl (Exception ''cannot open log''))\<rparr>"

definition stop_raises :: "(string \<times> string) list hooks" where
  "stop_raises = placeholder_hooks
     \<lparr>maybe_stop_logging := (\<lambda>u. Inl (Exception ''log already closed''))\<rparr>"

definition compute_and_stop_raise :: "(string \<times> string) list hooks" where
  "compute_and_stop_raise = placeholder_hooks
     \<lparr>get_process_function_result := (\<lambda>set_id. Inl (Exception ''no data'')),
      maybe_stop_logging := (\<lambda>u. Inl (Exception ''log already closed''))\<rparr>"

definition compute_raises_on :: "set_id \<Rightarrow> (string \<times> string) list hooks" where
  "compute_raises_on bad = placeholder_hooks
     \<lparr>get_process_function_result :=
        (\<lambda>set_id. if set_id = bad then Inl (Exception ''no data'')
                  else Inr [(''result'', ''sample result'')])\<rparr>"

subsection \<open>Invariants of a run\<close>

text \<open>
  A worker holds an ID between its \<open>get()\<close> and the pipeline run for it.
\<close>

definition held :: "worker \<Rightarrow> set_id list" where
  "held w = (case pc w of Holding x \<Rightarrow> [x] | AtCheck \<Rightarrow> [] | AtGet \<Rightarrow> []
             | Done \<Rightarrow> [] | Crashed e \<Rightarrow> [])"

text \<open>
  What holds of every worker at every moment, whatever the schedule: it has not
  crashed; the rows it put are the rows of the successful tasks it ran, if the flag is
  set, and none otherwise; the IDs it dequeued are those whose pipeline it entered and
  the one it holds.
\<close>

definition worker_inv :: "'r hooks \<Rightarrow> bool \<Rightarrow> worker \<Rightarrow> bool" where
  "worker_inv h b w =
     (\<not> crashed w \<and>
      concat (map put_row (trace w)) =
        (if b then map (row_of h) (filter (succeeded h) (concat (map begun_id (trace w))))
         else []) \<and>
      concat (map dequeued_id (trace w)) = concat (map begun_id (trace w)) @ held w)"

definition pool_inv :: "'r hooks \<Rightarrow> bool \<Rightarrow> string list \<Rightarrow> pool \<Rightarrow> bool" where
  "pool_inv h b rows0 p =
     (save_all_results (shared p) = b \<and>
      mset (results_queue (shared p)) = mset rows0 + mset (rows_put p) \<and>
      list_all (worker_inv h b) (workers p))"

text \<open>
  What holds while no \<open>get()\<close> raises and every loop test sees the queue as it is:
  every ID is in the queue or was dequeued, and a worker has returned only after the
  queue was empty.
\<close>

definition drain_inv :: "set_id multiset \<Rightarrow> pool \<Rightarrow> bool" where
  "drain_inv ids p =
     (mset (set_ids_queue (shared p)) + mset (dequeued p) = ids \<and>
      (set_ids_queue (shared p) = [] \<or> list_all (\<lambda>w. pc w \<noteq> Done) (workers p)))"

text \<open>The IDs that are still in the queue or were dequeued by some worker.\<close>

definition in_flight :: "pool \<Rightarrow> set_id multiset" where
  "in_flight p = mset (set_ids_queue (shared p)) + mset (dequeued p)"

definition all_quiescent :: "pool \<Rightarrow> bool" where
  "all_quiescent p = list_all (quiescent (shared p)) (workers p)"

text \<open>
  Steps 5 and 6 for one set ID, as the hooks decide them: the first exception among
  stop-logging and local-persist, if any. Local-persist receives \<open>res_string\<close>, which
  is the aggregated row if steps 1 to 3 returned and the empty string otherwise.
\<close>

definition cleanup_outcome :: "'r hooks \<Rightarrow> set_id \<Rightarrow> exn + unit" where
  "cleanup_outcome h set_id =
     (case maybe_stop_logging h () of
        Inl e \<Rightarrow> Inl e
      | Inr u \<Rightarrow> maybe_save_local_results h set_id (row_of h set_id))"

text \<open>A worker running alone for a number of steps.\<close>

fun worker_steps :: "'r hooks \<Rightarrow> nat \<Rightarrow> solver \<times> worker \<Rightarrow> solver \<times> worker" where
  "worker_steps h 0 sw = sw"
| "worker_steps h (Suc n) sw = worker_steps h n (worker_step h (fst sw) (snd sw))"

section \<open>Properties\<close>

subsection \<open>One pipeline run\<close>

lemmas pipeline_defs =
  pipeline_def try_block_def finally_block_def then_do_def try_except_def try_finally_def
  emit_def call_def assign_res_string_def read_res_string_def results_put_def skip_def

lemma pipeline_returns: "fst (pipeline h save set_id t) = Inr ()"
  by (auto simp: pipeline_defs split: sum.splits prod.splits)

lemma pipeline_out: "out (snd (pipeline h save set_id t)) = out t @ task_events h save set_id"
  by (auto simp: task_events_def blank_def pipeline_defs split: sum.splits prod.splits)

lemma pipeline_results:
  "results_q (snd (pipeline h save set_id t)) = results_q t @ task_rows h save set_id"
  by (auto simp: task_rows_def blank_def pipeline_defs split: sum.splits prod.splits)

lemma task_rows_eq:
  "task_rows h save set_id = (if save \<and> succeeded h set_id then [row_of h set_id] else [])"
  by (auto simp: task_rows_def blank_def succeeded_def row_of_def try_outcome_def pipeline_defs
      split: sum.splits prod.splits)

lemma task_events_begun: "concat (map begun_id (task_events h save set_id)) = [set_id]"
  by (auto simp: task_events_def blank_def pipeline_defs split: sum.splits prod.splits)

lemma task_events_dequeued: "concat (map dequeued_id (task_events h save set_id)) = []"
  by (auto simp: task_events_def blank_def pipeline_defs split: sum.splits prod.splits)

lemma task_events_put:
  "concat (map put_row (task_events h save set_id)) = task_rows h save set_id"
  by (auto simp: task_events_def task_rows_def blank_def pipeline_defs
      split: sum.splits prod.splits)

lemma run_task_eq:
  "run_task h set_id s w =
     (s\<lparr>results_queue := results_queue s @ task_rows h (save_all_results s) set_id\<rparr>,
      \<lparr>pc = AtCheck, trace = trace w @ task_events h (save_all_results s) set_id\<rparr>)"
proof -
  let ?t = "\<lparr>res_string = [], out = trace w, results_q = results_queue s\<rparr>"
  obtain r t' where rt: "pipeline h (save_all_results s) set_id ?t = (r, t')"
    by (cases "pipeline h (save_all_results s) set_id ?t")
  with pipeline_returns [of h "save_all_results s" set_id ?t] have r: "r = Inr ()"
    by simp
  from rt pipeline_out [of h "save_all_results s" set_id ?t]
  have o: "out t' = trace w @ task_events h (save_all_results s) set_id"
    by simp
  from rt pipeline_results [of h "save_all_results s" set_id ?t]
  have q: "results_q t' = results_queue s @ task_rows h (save_all_results s) set_id"
    by simp
  from rt r o q show ?thesis
    by (simp add: run_task_def)
qed

subsection \<open>Invariants are kept by every run\<close>

lemma at_worker_length: "length (workers (at_worker i f p)) = length (workers p)"
  by (simp add: at_worker_def split: prod.splits)

lemma pool_step_length: "length (workers (pool_step h a p)) = length (workers p)"
  by (cases a) (simp_all add: at_worker_length)

lemma run_alone_invariant:
  "(\<forall>j q. P q \<longrightarrow> P (pool_step h (Run j) q)) \<Longrightarrow> P p \<Longrightarrow> P (run_alone h i p)"
proof (induction h i p rule: run_alone.induct)
  case (1 h i p)
  note step = "1.prems"(1) [rule_format]
  show ?case
  proof (cases "can_move i p")
    case True
    then have eq: "run_alone h i p = run_alone h i (pool_step h (Run i) p)"
      by (subst run_alone.simps) simp
    have "P (pool_step h (Run i) p)"
      using "1.prems"(2) by (rule step)
    with True "1.prems"(1) have "P (run_alone h i (pool_step h (Run i) p))"
      by (rule "1.IH")
    with eq show ?thesis by (simp only:)
  next
    case False
    then have "run_alone h i p = p"
      by (subst run_alone.simps) simp
    with "1.prems"(2) show ?thesis by (simp only:)
  qed
qed

lemma fold_run_alone_invariant:
  "(\<forall>j q. P q \<longrightarrow> P (pool_step h (Run j) q)) \<Longrightarrow> P p \<Longrightarrow> P (fold (run_alone h) js p)"
proof (induction js arbitrary: p)
  case Nil
  then show ?case by simp
next
  case (Cons j js)
  from Cons.prems have "P (run_alone h j p)"
    by (rule run_alone_invariant [where P = P])
  with Cons.prems(1) have "P (fold (run_alone h) js (run_alone h j p))"
    by (rule Cons.IH)
  then show ?case by simp
qed

lemma finish_invariant:
  "(\<forall>j q. P q \<longrightarrow> P (pool_step h (Run j) q)) \<Longrightarrow> P p \<Longrightarrow> P (finish h p)"
  unfolding finish_def by (rule fold_run_alone_invariant [where P = P])

lemma run_sched_invariant:
  "(\<forall>a q. a \<in> set sched \<longrightarrow> P q \<longrightarrow> P (pool_step h a q)) \<Longrightarrow> P p
     \<Longrightarrow> P (run_sched h sched p)"
  unfolding run_sched_def
proof (induction sched arbitrary: p)
  case Nil
  then show ?case by simp
next
  case (Cons a sched)
  note step = Cons.prems(1) [rule_format]
  have "a \<in> set (a # sched)" by simp
  then have "P (pool_step h a p)"
    using Cons.prems(2) by (rule step)
  moreover have "\<forall>b q. b \<in> set sched \<longrightarrow> P q \<longrightarrow> P (pool_step h b q)"
  proof (intro allI impI)
    fix b q assume "b \<in> set sched" and q: "P q"
    then have "b \<in> set (a # sched)" by simp
    then show "P (pool_step h b q)" using q by (rule step)
  qed
  ultimately have "P (fold (pool_step h) sched (pool_step h a p))"
    by (rule Cons.IH [rotated])
  then show ?case by simp
qed

lemma run_workers_invariant:
  assumes step: "\<forall>a q. P q \<longrightarrow> P (pool_step h a q)" and p: "P p"
  shows "P (run_workers h sched p)"
  unfolding run_workers_def
proof (rule finish_invariant [where P = P])
  show "\<forall>j q. P q \<longrightarrow> P (pool_step h (Run j) q)"
    by (intro allI impI) (rule step [rule_format])
  have "\<forall>a q. a \<in> set sched \<longrightarrow> P q \<longrightarrow> P (pool_step h a q)"
    by (intro allI impI) (rule step [rule_format])
  then show "P (run_sched h sched p)" using p by (rule run_sched_invariant [where P = P])
qed

lemma run_workers_invariant_fault_free:
  assumes step: "\<forall>j q. P q \<longrightarrow> P (pool_step h (Run j) q)"
    and ff: "fault_free sched" and p: "P p"
  shows "P (run_workers h sched p)"
  unfolding run_workers_def
proof (rule finish_invariant [where P = P])
  show "\<forall>j q. P q \<longrightarrow> P (pool_step h (Run j) q)" by (rule step)
  have "\<forall>a q. a \<in> set sched \<longrightarrow> P q \<longrightarrow> P (pool_step h a q)"
  proof (intro allI impI)
    fix a q assume "a \<in> set sched" and q: "P q"
    with ff have "is_run a" by (simp add: fault_free_def list_all_iff)
    then obtain j where a: "a = Run j" by (cases a) simp_all
    from q have "P (pool_step h (Run j) q)" by (rule step [rule_format])
    with a show "P (pool_step h a q)" by (simp del: pool_step.simps)
  qed
  then show "P (run_sched h sched p)" using p by (rule run_sched_invariant [where P = P])
qed

lemma worker_step_cases [case_names check_done check_more wait get task]:
  obtains
    "pc w = AtCheck" "set_ids_queue s = []" "worker_step h s w = (s, w\<lparr>pc := Done\<rparr>)"
  | "pc w = AtCheck" "set_ids_queue s \<noteq> []" "worker_step h s w = (s, w\<lparr>pc := AtGet\<rparr>)"
  | "worker_step h s w = (s, w)"
  | x rest where "pc w = AtGet" "set_ids_queue s = x # rest"
      "worker_step h s w =
        (s\<lparr>set_ids_queue := rest\<rparr>, \<lparr>pc = Holding x, trace = trace w @ [Dequeued x]\<rparr>)"
  | x where "pc w = Holding x"
      "worker_step h s w =
        (s\<lparr>results_queue := results_queue s @ task_rows h (save_all_results s) x\<rparr>,
         \<lparr>pc = AtCheck, trace = trace w @ task_events h (save_all_results s) x\<rparr>)"
proof (cases "pc w")
  case AtCheck
  then show ?thesis
    using that(1,2) by (cases "set_ids_queue s = []") (simp_all add: worker_step_def)
next
  case AtGet
  then show ?thesis
    using that(3,4) by (cases "set_ids_queue s") (simp_all add: worker_step_def)
next
  case (Holding x)
  then show ?thesis
    using that(5) by (simp add: worker_step_def run_task_eq)
next
  case Done
  then show ?thesis using that(3) by (simp add: worker_step_def)
next
  case (Crashed e)
  then show ?thesis using that(3) by (simp add: worker_step_def)
qed

lemma mset_concat_update:
  "i < length ws \<Longrightarrow>
     mset (concat (map f (ws[i := w]))) + mset (f (ws ! i)) = mset (concat (map f ws)) + mset (f w)"
proof (induction ws arbitrary: i)
  case Nil
  then show ?case by simp
next
  case (Cons a ws)
  show ?case
  proof (cases i)
    case 0
    then show ?thesis by simp
  next
    case (Suc j)
    with Cons.prems have "j < length ws" by simp
    from Cons.IH [OF this] Suc show ?thesis by (simp add: ac_simps)
  qed
qed

lemma mset_concat_extend:
  assumes "i < length ws" and "f w = f (ws ! i) @ extra"
  shows "mset (concat (map f (ws[i := w]))) = mset (concat (map f ws)) + mset extra"
proof -
  from mset_concat_update [OF assms(1), of f w] assms(2)
  have "mset (concat (map f (ws[i := w]))) + mset (f (ws ! i))
          = (mset (concat (map f ws)) + mset extra) + mset (f (ws ! i))"
    by (simp add: ac_simps)
  then show ?thesis by (simp only: add_right_cancel)
qed

lemma list_all_update:
  "list_all P ws \<Longrightarrow> P w \<Longrightarrow> list_all P (ws[i := w])"
  by (induction ws arbitrary: i) (auto split: nat.splits)


lemma pool_eta [simp]: "\<lparr>shared = shared p, workers = workers p\<rparr> = p"
  by (cases p) simp

lemma pool_inv_update:
  assumes inv: "pool_inv h b rows0 p" and i: "i < length (workers p)"
    and tr: "trace w' = trace (workers p ! i) @ extra"
    and rq: "results_queue s' = results_queue (shared p) @ concat (map put_row extra)"
    and fl: "save_all_results s' = save_all_results (shared p)"
    and w': "worker_inv h b w'"
  shows "pool_inv h b rows0 \<lparr>shared = s', workers = (workers p)[i := w']\<rparr>"
proof -
  let ?f = "\<lambda>w. concat (map put_row (trace w))"
  from tr have "?f w' = ?f (workers p ! i) @ concat (map put_row extra)"
    by simp
  with i have "mset (concat (map ?f ((workers p)[i := w'])))
      = mset (concat (map ?f (workers p))) + mset (concat (map put_row extra))"
    by (rule mset_concat_extend)
  then have "mset (rows_put \<lparr>shared = s', workers = (workers p)[i := w']\<rparr>)
      = mset (rows_put p) + mset (concat (map put_row extra))"
    by (simp add: rows_put_def)
  moreover from inv have "mset (results_queue (shared p)) = mset rows0 + mset (rows_put p)"
    by (simp add: pool_inv_def)
  moreover from inv w' have "list_all (worker_inv h b) ((workers p)[i := w'])"
    by (simp add: pool_inv_def list_all_update)
  moreover from inv fl have "save_all_results s' = b"
    by (simp add: pool_inv_def)
  ultimately show ?thesis
    using rq by (simp add: pool_inv_def)
qed

lemma pool_inv_worker:
  "pool_inv h b rows0 p \<Longrightarrow> i < length (workers p) \<Longrightarrow> worker_inv h b (workers p ! i)"
  by (simp add: pool_inv_def list_all_length)

lemma pool_inv_same:
  "pool_inv h b rows0 p \<Longrightarrow> pool_inv h b rows0 \<lparr>shared = shared p, workers = (workers p)[i := workers p ! i]\<rparr>"
  by (simp add: list_update_id)

lemma pool_inv_run:
  assumes inv: "pool_inv h b rows0 p"
  shows "pool_inv h b rows0 (pool_step h (Run i) p)"
proof (cases "i < length (workers p)")
  case False
  with inv show ?thesis by (simp add: at_worker_def)
next
  case True
  let ?w = "workers p ! i" and ?s = "shared p"
  from inv True have w: "worker_inv h b ?w" by (rule pool_inv_worker)
  from inv have b: "save_all_results ?s = b" by (simp add: pool_inv_def)
  show ?thesis
  proof (cases rule: worker_step_cases [of ?w ?s h])
    case check_done
    from w check_done(1) have "worker_inv h b (?w\<lparr>pc := Done\<rparr>)"
      by (simp add: worker_inv_def crashed_def held_def)
    with inv True have "pool_inv h b rows0 \<lparr>shared = ?s, workers = (workers p)[i := ?w\<lparr>pc := Done\<rparr>]\<rparr>"
      by (intro pool_inv_update [where extra = "[]"]) simp_all
    with True check_done(3) show ?thesis by (simp add: at_worker_def)
  next
    case check_more
    from w check_more(1) have "worker_inv h b (?w\<lparr>pc := AtGet\<rparr>)"
      by (simp add: worker_inv_def crashed_def held_def)
    with inv True have "pool_inv h b rows0 \<lparr>shared = ?s, workers = (workers p)[i := ?w\<lparr>pc := AtGet\<rparr>]\<rparr>"
      by (intro pool_inv_update [where extra = "[]"]) simp_all
    with True check_more(3) show ?thesis by (simp add: at_worker_def)
  next
    case wait
    with inv True show ?thesis by (simp add: at_worker_def list_update_id)
  next
    case (get x rest)
    let ?w' = "\<lparr>pc = Holding x, trace = trace ?w @ [Dequeued x]\<rparr>"
    from w get(1) have "worker_inv h b ?w'"
      by (simp add: worker_inv_def crashed_def held_def)
    with inv True have "pool_inv h b rows0 \<lparr>shared = ?s\<lparr>set_ids_queue := rest\<rparr>, workers = (workers p)[i := ?w']\<rparr>"
      by (intro pool_inv_update [where extra = "[Dequeued x]"]) simp_all
    with True get(3) show ?thesis by (simp add: at_worker_def)
  next
    case (task x)
    let ?w' = "\<lparr>pc = AtCheck, trace = trace ?w @ task_events h b x\<rparr>"
    let ?s' = "?s\<lparr>results_queue := results_queue ?s @ task_rows h b x\<rparr>"
    from w task(1) have "worker_inv h b ?w'"
      by (simp add: worker_inv_def crashed_def held_def task_events_put task_events_begun
          task_events_dequeued task_rows_eq)
    with inv True have "pool_inv h b rows0 \<lparr>shared = ?s', workers = (workers p)[i := ?w']\<rparr>"
      by (intro pool_inv_update [where extra = "task_events h b x"])
        (simp_all add: task_events_put)
    with True task(2) b show ?thesis by (simp add: at_worker_def)
  qed
qed

lemma pool_inv_get_raises:
  assumes inv: "pool_inv h b rows0 p"
  shows "pool_inv h b rows0 (pool_step h (GetRaises i e lost) p)"
proof (cases "i < length (workers p) \<and> pc (workers p ! i) = AtGet")
  case False
  with inv show ?thesis
    by (cases "pc (workers p ! i)") (simp_all add: at_worker_def get_raises_def list_update_id)
next
  case True
  let ?w = "workers p ! i" and ?s = "shared p"
  let ?w' = "\<lparr>pc = Done, trace = trace ?w @ [ErrRetrieving e]\<rparr>"
  let ?s' = "?s\<lparr>set_ids_queue := (if lost then drop 1 (set_ids_queue ?s) else set_ids_queue ?s)\<rparr>"
  from inv True have "worker_inv h b ?w" by (simp add: pool_inv_worker)
  with True have "worker_inv h b ?w'"
    by (simp add: worker_inv_def crashed_def held_def)
  with inv True have "pool_inv h b rows0 \<lparr>shared = ?s', workers = (workers p)[i := ?w']\<rparr>"
    by (intro pool_inv_update [where extra = "[ErrRetrieving e]"]) simp_all
  with True show ?thesis by (simp add: at_worker_def get_raises_def)
qed

lemma pool_inv_sees_empty:
  assumes inv: "pool_inv h b rows0 p"
  shows "pool_inv h b rows0 (pool_step h (SeesEmpty i) p)"
proof (cases "i < length (workers p) \<and> pc (workers p ! i) = AtCheck")
  case False
  with inv show ?thesis
    by (cases "pc (workers p ! i)") (simp_all add: at_worker_def sees_empty_def list_update_id)
next
  case True
  let ?w = "workers p ! i" and ?s = "shared p"
  from inv True have "worker_inv h b ?w" by (simp add: pool_inv_worker)
  with True have "worker_inv h b (?w\<lparr>pc := Done\<rparr>)"
    by (simp add: worker_inv_def crashed_def held_def)
  with inv True have "pool_inv h b rows0 \<lparr>shared = ?s, workers = (workers p)[i := ?w\<lparr>pc := Done\<rparr>]\<rparr>"
    by (intro pool_inv_update [where extra = "[]"]) simp_all
  with True show ?thesis by (simp add: at_worker_def sees_empty_def)
qed

lemma pool_inv_step: "pool_inv h b rows0 p \<Longrightarrow> pool_inv h b rows0 (pool_step h a p)"
  by (cases a) (simp_all only: pool_inv_run pool_inv_get_raises pool_inv_sees_empty)

lemma pool_inv_run_workers:
  assumes "pool_inv h b rows0 p"
  shows "pool_inv h b rows0 (run_workers h sched p)"
proof (rule run_workers_invariant [where P = "pool_inv h b rows0"])
  show "\<forall>a q. pool_inv h b rows0 q \<longrightarrow> pool_inv h b rows0 (pool_step h a q)"
    by (intro allI impI) (rule pool_inv_step)
qed (rule assms)

lemma drain_inv_update:
  assumes inv: "drain_inv ids p" and i: "i < length (workers p)"
    and tr: "trace w' = trace (workers p ! i) @ extra"
    and q: "mset (set_ids_queue s') + mset (concat (map dequeued_id extra))
              = mset (set_ids_queue (shared p))"
    and d: "set_ids_queue s' = [] \<or> (set_ids_queue (shared p) \<noteq> [] \<and> pc w' \<noteq> Done)"
  shows "drain_inv ids \<lparr>shared = s', workers = (workers p)[i := w']\<rparr>"
proof -
  let ?f = "\<lambda>w. concat (map dequeued_id (trace w))"
  from tr have "?f w' = ?f (workers p ! i) @ concat (map dequeued_id extra)"
    by simp
  with i have "mset (concat (map ?f ((workers p)[i := w'])))
      = mset (concat (map ?f (workers p))) + mset (concat (map dequeued_id extra))"
    by (rule mset_concat_extend)
  then have "mset (dequeued \<lparr>shared = s', workers = (workers p)[i := w']\<rparr>)
      = mset (dequeued p) + mset (concat (map dequeued_id extra))"
    by (simp add: dequeued_def)
  with inv q have "mset (set_ids_queue s')
      + mset (dequeued \<lparr>shared = s', workers = (workers p)[i := w']\<rparr>) = ids"
    by (simp add: drain_inv_def ac_simps flip: add.assoc)
  moreover have "set_ids_queue s' = [] \<or> list_all (\<lambda>w. pc w \<noteq> Done) ((workers p)[i := w'])"
  proof (cases "set_ids_queue s' = []")
    case True
    then show ?thesis by simp
  next
    case False
    with d have "set_ids_queue (shared p) \<noteq> []" and "pc w' \<noteq> Done" by simp_all
    with inv show ?thesis by (simp add: drain_inv_def list_all_update)
  qed
  ultimately show ?thesis by (simp add: drain_inv_def)
qed

lemma drain_inv_run:
  assumes inv: "drain_inv ids p"
  shows "drain_inv ids (pool_step h (Run i) p)"
proof (cases "i < length (workers p)")
  case False
  with inv show ?thesis by (simp add: at_worker_def)
next
  case True
  let ?w = "workers p ! i" and ?s = "shared p"
  show ?thesis
  proof (cases rule: worker_step_cases [of ?w ?s h])
    case check_done
    with inv True have "drain_inv ids \<lparr>shared = ?s, workers = (workers p)[i := ?w\<lparr>pc := Done\<rparr>]\<rparr>"
      by (intro drain_inv_update [where extra = "[]"]) simp_all
    with True check_done(3) show ?thesis by (simp add: at_worker_def)
  next
    case check_more
    with inv True have "drain_inv ids \<lparr>shared = ?s, workers = (workers p)[i := ?w\<lparr>pc := AtGet\<rparr>]\<rparr>"
      by (intro drain_inv_update [where extra = "[]"]) simp_all
    with True check_more(3) show ?thesis by (simp add: at_worker_def)
  next
    case wait
    with inv True show ?thesis by (simp add: at_worker_def list_update_id)
  next
    case (get x rest)
    let ?w' = "\<lparr>pc = Holding x, trace = trace ?w @ [Dequeued x]\<rparr>"
    from inv True get(2)
    have "drain_inv ids \<lparr>shared = ?s\<lparr>set_ids_queue := rest\<rparr>, workers = (workers p)[i := ?w']\<rparr>"
      by (intro drain_inv_update [where extra = "[Dequeued x]"]) simp_all
    with True get(3) show ?thesis by (simp add: at_worker_def)
  next
    case (task x)
    let ?b = "save_all_results ?s"
    let ?w' = "\<lparr>pc = AtCheck, trace = trace ?w @ task_events h ?b x\<rparr>"
    let ?s' = "?s\<lparr>results_queue := results_queue ?s @ task_rows h ?b x\<rparr>"
    from inv True
    have "drain_inv ids \<lparr>shared = ?s', workers = (workers p)[i := ?w']\<rparr>"
      by (intro drain_inv_update [where extra = "task_events h ?b x"])
        (simp_all add: task_events_dequeued)
    with True task(2) show ?thesis by (simp add: at_worker_def)
  qed
qed

lemma drain_inv_run_workers:
  assumes "fault_free sched" and "drain_inv ids p"
  shows "drain_inv ids (run_workers h sched p)"
proof (rule run_workers_invariant_fault_free [where P = "drain_inv ids"])
  show "\<forall>j q. drain_inv ids q \<longrightarrow> drain_inv ids (pool_step h (Run j) q)"
    by (intro allI impI) (rule drain_inv_run)
qed (rule assms)+

subsection \<open>When the schedule is used up, every worker is quiescent\<close>

lemma worker_step_queue_empty:
  "set_ids_queue s = [] \<Longrightarrow> set_ids_queue (fst (worker_step h s w)) = []"
  by (cases rule: worker_step_cases [of w s h]) simp_all

lemma get_raises_queue_empty:
  "set_ids_queue s = [] \<Longrightarrow> set_ids_queue (fst (get_raises e lost s w)) = []"
  by (cases "pc w") (simp_all add: get_raises_def)

lemma sees_empty_queue_empty:
  "set_ids_queue s = [] \<Longrightarrow> set_ids_queue (fst (sees_empty s w)) = []"
  by (cases "pc w") (simp_all add: sees_empty_def)

lemma sees_empty_quiescent:
  "quiescent s w \<Longrightarrow> quiescent (fst (sees_empty s w)) (snd (sees_empty s w))"
  by (cases "pc w") (auto simp: quiescent_def terminated_def blocked_def sees_empty_def)

lemma worker_step_quiescent:
  "quiescent s w \<Longrightarrow> worker_step h s w = (s, w)"
  by (cases "pc w") (auto simp: quiescent_def terminated_def blocked_def worker_step_def)

lemma get_raises_quiescent:
  "quiescent s w \<Longrightarrow> quiescent (fst (get_raises e lost s w)) (snd (get_raises e lost s w))"
  by (cases "pc w") (auto simp: quiescent_def terminated_def blocked_def get_raises_def)

lemma quiescent_queue:
  "quiescent s w \<Longrightarrow> (set_ids_queue s = [] \<Longrightarrow> set_ids_queue s' = []) \<Longrightarrow> quiescent s' w"
  by (auto simp: quiescent_def blocked_def)

lemma at_worker_quiescent:
  assumes j: "j < length (workers p)" and q: "quiescent (shared p) (workers p ! j)"
    and same: "\<And>s w. quiescent s w \<Longrightarrow> quiescent (fst (f s w)) (snd (f s w))"
    and empty: "\<And>s w. set_ids_queue s = [] \<Longrightarrow> set_ids_queue (fst (f s w)) = []"
  shows "quiescent (shared (at_worker i f p)) (workers (at_worker i f p) ! j)"
proof (cases "i < length (workers p)")
  case False
  with q show ?thesis by (simp add: at_worker_def)
next
  case True
  obtain s' w' where sw: "f (shared p) (workers p ! i) = (s', w')"
    by (cases "f (shared p) (workers p ! i)")
  show ?thesis
  proof (cases "i = j")
    case True
    from same [OF q] sw True have "quiescent s' w'" by simp
    with sw True j show ?thesis by (simp add: at_worker_def)
  next
    case False
    from empty [of "shared p" "workers p ! i"] sw
    have "set_ids_queue (shared p) = [] \<Longrightarrow> set_ids_queue s' = []" by simp
    with q have "quiescent s' (workers p ! j)" by (rule quiescent_queue)
    with sw False True show ?thesis by (simp add: at_worker_def)
  qed
qed

lemma pool_step_quiescent:
  assumes "j < length (workers p)" and "quiescent (shared p) (workers p ! j)"
  shows "quiescent (shared (pool_step h a p)) (workers (pool_step h a p) ! j)"
proof (cases a)
  case (Run i)
  have "quiescent (shared (at_worker i (worker_step h) p)) (workers (at_worker i (worker_step h) p) ! j)"
    using assms by (rule at_worker_quiescent) (simp_all add: worker_step_quiescent worker_step_queue_empty)
  with Run show ?thesis by simp
next
  case (GetRaises i e lost)
  have "quiescent (shared (at_worker i (get_raises e lost) p)) (workers (at_worker i (get_raises e lost) p) ! j)"
    using assms by (rule at_worker_quiescent) (simp_all add: get_raises_quiescent get_raises_queue_empty)
  with GetRaises show ?thesis by simp
next
  case (SeesEmpty i)
  have "quiescent (shared (at_worker i sees_empty p)) (workers (at_worker i sees_empty p) ! j)"
    using assms by (rule at_worker_quiescent) (simp_all add: sees_empty_quiescent sees_empty_queue_empty)
  with SeesEmpty show ?thesis by simp
qed

lemma run_alone_length: "length (workers (run_alone h i p)) = length (workers p)"
proof (rule run_alone_invariant [where P = "\<lambda>q. length (workers q) = length (workers p)"])
  show "\<forall>j q. length (workers q) = length (workers p)
          \<longrightarrow> length (workers (pool_step h (Run j) q)) = length (workers p)"
    by (simp only: pool_step_length) simp
qed simp

lemma run_alone_keeps_quiescent:
  assumes "j < length (workers p)" and "quiescent (shared p) (workers p ! j)"
  shows "quiescent (shared (run_alone h i p)) (workers (run_alone h i p) ! j)"
proof -
  let ?P = "\<lambda>q. j < length (workers q) \<and> quiescent (shared q) (workers q ! j)"
  have "?P (run_alone h i p)"
  proof (rule run_alone_invariant [where P = ?P])
    show "\<forall>k q. ?P q \<longrightarrow> ?P (pool_step h (Run k) q)"
      by (intro allI impI conjI) (simp_all only: pool_step_length pool_step_quiescent)
    from assms show "?P p" by simp
  qed
  then show ?thesis by simp
qed

lemma run_alone_quiescent:
  "i < length (workers p) \<Longrightarrow> quiescent (shared (run_alone h i p)) (workers (run_alone h i p) ! i)"
proof (induction h i p rule: run_alone.induct)
  case (1 h i p)
  show ?case
  proof (cases "can_move i p")
    case True
    then have eq: "run_alone h i p = run_alone h i (pool_step h (Run i) p)"
      by (subst run_alone.simps) simp
    from "1.prems" have "i < length (workers (pool_step h (Run i) p))"
      by (simp only: pool_step_length)
    with True have "quiescent (shared (run_alone h i (pool_step h (Run i) p)))
        (workers (run_alone h i (pool_step h (Run i) p)) ! i)"
      by (rule "1.IH")
    with eq show ?thesis by (simp only:)
  next
    case False
    then have "run_alone h i p = p"
      by (subst run_alone.simps) simp
    with False "1.prems" show ?thesis by (simp add: can_move_def)
  qed
qed

lemma fold_run_alone_quiescent:
  "n \<le> length (workers p) \<Longrightarrow>
     length (workers (fold (run_alone h) [0..<n] p)) = length (workers p) \<and>
     (\<forall>j<n. quiescent (shared (fold (run_alone h) [0..<n] p))
               (workers (fold (run_alone h) [0..<n] p) ! j))"
proof (induction n)
  case 0
  then show ?case by simp
next
  case (Suc n)
  let ?q = "fold (run_alone h) [0..<n] p"
  from Suc have len: "length (workers ?q) = length (workers p)"
    and qs: "\<forall>j<n. quiescent (shared ?q) (workers ?q ! j)"
    by simp_all
  have eq: "fold (run_alone h) [0..<Suc n] p = run_alone h n ?q"
    by simp
  have "quiescent (shared (run_alone h n ?q)) (workers (run_alone h n ?q) ! j)" if "j < Suc n" for j
  proof (cases "j = n")
    case True
    with Suc.prems len show ?thesis by (simp add: run_alone_quiescent)
  next
    case False
    with that have "j < n" by simp
    with qs Suc.prems len show ?thesis by (simp add: run_alone_keeps_quiescent)
  qed
  with len eq show ?case by (simp only: run_alone_length) simp
qed

lemma finish_quiescent: "all_quiescent (finish h p)"
  using fold_run_alone_quiescent [of "length (workers p)" p h]
  by (simp add: all_quiescent_def finish_def list_all_length)

lemma run_workers_quiescent: "all_quiescent (run_workers h sched p)"
  by (simp add: run_workers_def finish_quiescent)

lemma run_sched_length: "length (workers (run_sched h sched p)) = length (workers p)"
proof (rule run_sched_invariant [where P = "\<lambda>q. length (workers q) = length (workers p)"])
  show "\<forall>a q. a \<in> set sched \<longrightarrow> length (workers q) = length (workers p)
          \<longrightarrow> length (workers (pool_step h a q)) = length (workers p)"
    by (simp only: pool_step_length) simp
qed simp

lemma run_workers_length: "length (workers (run_workers h sched p)) = length (workers p)"
  using fold_run_alone_quiescent [of "length (workers (run_sched h sched p))" "run_sched h sched p" h]
  by (simp add: run_workers_def finish_def run_sched_length)

subsection \<open>The pool after the run\<close>

lemma pool_inv_spawn:
  "pool_inv h (results_file \<noteq> None) (results_queue s) (spawn (seed results_file set_ids s))"
  by (simp add: pool_inv_def spawn_def seed_def rows_put_def fresh_worker_def worker_inv_def
      crashed_def held_def list_all_length)

lemma drain_inv_spawn:
  "set_ids_queue s = [] \<Longrightarrow> drain_inv (mset set_ids) (spawn (seed results_file set_ids s))"
  by (simp add: drain_inv_def spawn_def seed_def dequeued_def fresh_worker_def list_all_length)

lemma concat_map_cong_all:
  "list_all (\<lambda>w. f w = g w) ws \<Longrightarrow> concat (map f ws) = concat (map g ws)"
  by (induction ws) simp_all

lemma quiescent_not_crashed_held:
  "quiescent s w \<Longrightarrow> \<not> crashed w \<Longrightarrow> held w = [] \<and> (pc w = Done \<or> pc w = AtGet \<and> set_ids_queue s = [])"
  by (cases "pc w") (simp_all add: quiescent_def terminated_def blocked_def crashed_def held_def)

lemma final_tasks_run:
  assumes inv: "pool_inv h b rows0 p" and q: "all_quiescent p"
  shows "dequeued p = tasks_run p"
proof -
  have "list_all (\<lambda>w. concat (map dequeued_id (trace w)) = concat (map begun_id (trace w)))
          (workers p)"
    unfolding list_all_length
  proof (intro allI impI)
    fix i assume i: "i < length (workers p)"
    with inv have w: "worker_inv h b (workers p ! i)" by (rule pool_inv_worker)
    from q i have "quiescent (shared p) (workers p ! i)"
      by (simp add: all_quiescent_def list_all_length)
    with w have "held (workers p ! i) = []"
      by (simp add: quiescent_not_crashed_held worker_inv_def)
    with w show "concat (map dequeued_id (trace (workers p ! i)))
        = concat (map begun_id (trace (workers p ! i)))"
      by (simp add: worker_inv_def)
  qed
  then show ?thesis
    unfolding dequeued_def tasks_run_def by (rule concat_map_cong_all)
qed

lemma final_queue_empty:
  assumes inv: "pool_inv h b rows0 p" and d: "drain_inv ids p" and q: "all_quiescent p"
    and n: "0 < length (workers p)"
  shows "set_ids_queue (shared p) = []"
proof -
  from inv n have "\<not> crashed (workers p ! 0)"
    using pool_inv_worker [of h b rows0 p 0] by (simp add: worker_inv_def)
  moreover from q n have "quiescent (shared p) (workers p ! 0)"
    by (simp add: all_quiescent_def list_all_length)
  ultimately have "pc (workers p ! 0) = Done \<or> set_ids_queue (shared p) = []"
    using quiescent_not_crashed_held by blast
  moreover from d n have "set_ids_queue (shared p) = [] \<or> pc (workers p ! 0) \<noteq> Done"
    by (auto simp: drain_inv_def list_all_length)
  ultimately show ?thesis by blast
qed

lemma all_ids_run:
  assumes "0 < num_workers s" and "set_ids_queue s = []" and "fault_free sched"
  shows "set_ids_queue (shared (run_workers h sched (spawn (seed results_file set_ids s)))) = []"
    and "mset (tasks_run (run_workers h sched (spawn (seed results_file set_ids s)))) = mset set_ids"
    and "dequeued (run_workers h sched (spawn (seed results_file set_ids s)))
          = tasks_run (run_workers h sched (spawn (seed results_file set_ids s)))"
proof -
  let ?start = "spawn (seed results_file set_ids s)"
  let ?p = "run_workers h sched ?start"
  have inv: "pool_inv h (results_file \<noteq> None) (results_queue s) ?p"
    by (rule pool_inv_run_workers) (rule pool_inv_spawn)
  from assms(2) have "drain_inv (mset set_ids) ?start" by (rule drain_inv_spawn)
  with assms(3) have d: "drain_inv (mset set_ids) ?p" by (rule drain_inv_run_workers)
  have q: "all_quiescent ?p" by (rule run_workers_quiescent)
  from assms(1) have n: "0 < length (workers ?p)"
    by (simp add: run_workers_length spawn_def seed_def)
  from inv d q n show e: "set_ids_queue (shared ?p) = []" by (rule final_queue_empty)
  from inv q show t: "dequeued ?p = tasks_run ?p" by (rule final_tasks_run)
  from d e t show "mset (tasks_run ?p) = mset set_ids" by (simp add: drain_inv_def)
qed

lemma concat_map_rows:
  "concat (map (\<lambda>w. if b then map f (filter P (g w)) else []) ws)
     = (if b then map f (filter P (concat (map g ws))) else [])"
  by (induction ws) simp_all

lemma rows_put_eq:
  assumes "pool_inv h b rows0 p"
  shows "rows_put p = (if b then map (row_of h) (filter (succeeded h) (tasks_run p)) else [])"
proof -
  from assms have "list_all (\<lambda>w. concat (map put_row (trace w)) =
      (if b then map (row_of h) (filter (succeeded h) (concat (map begun_id (trace w)))) else []))
      (workers p)"
    by (simp add: pool_inv_def worker_inv_def list_all_iff)
  then have "rows_put p = concat (map (\<lambda>w.
      (if b then map (row_of h) (filter (succeeded h) (concat (map begun_id (trace w)))) else []))
      (workers p))"
    unfolding rows_put_def by (rule concat_map_cong_all)
  also have "\<dots> = (if b then map (row_of h) (filter (succeeded h) (tasks_run p)) else [])"
    unfolding tasks_run_def by (rule concat_map_rows)
  finally show ?thesis .
qed

subsection \<open>No set ID is dequeued twice\<close>

lemma distinct_sub_mset:
  assumes "mset xs \<subseteq># mset ys" and "distinct ys"
  shows "distinct xs"
proof -
  have "count (mset xs) a = (if a \<in> set xs then 1 else 0)" for a
  proof (cases "a \<in> set xs")
    case True
    then have "0 < count (mset xs) a" by simp
    moreover from assms(1) have "count (mset xs) a \<le> count (mset ys) a"
      by (rule mset_subset_eq_count)
    moreover from assms(2) have "count (mset ys) a \<le> 1"
      by (simp add: distinct_count_atmost_1)
    ultimately have "count (mset xs) a = 1" by arith
    with True show ?thesis by simp
  next
    case False
    then show ?thesis by (simp add: count_eq_zero_iff)
  qed
  then show ?thesis by (simp add: distinct_count_atmost_1)
qed

lemma dequeued_update:
  assumes "i < length (workers p)" and "trace w' = trace (workers p ! i) @ extra"
  shows "mset (dequeued \<lparr>shared = s', workers = (workers p)[i := w']\<rparr>)
     = mset (dequeued p) + mset (concat (map dequeued_id extra))"
proof -
  let ?f = "\<lambda>w. concat (map dequeued_id (trace w))"
  from assms(2) have "?f w' = ?f (workers p ! i) @ concat (map dequeued_id extra)"
    by simp
  with assms(1) have "mset (concat (map ?f ((workers p)[i := w'])))
      = mset (concat (map ?f (workers p))) + mset (concat (map dequeued_id extra))"
    by (rule mset_concat_extend)
  then show ?thesis by (simp add: dequeued_def)
qed

lemma in_flight_run: "in_flight (pool_step h (Run i) p) = in_flight p"
proof (cases "i < length (workers p)")
  case False
  then show ?thesis by (simp add: at_worker_def)
next
  case True
  let ?w = "workers p ! i" and ?s = "shared p"
  show ?thesis
  proof (cases rule: worker_step_cases [of ?w ?s h])
    case check_done
    with True dequeued_update [of i p "?w\<lparr>pc := Done\<rparr>" "[]" ?s]
    show ?thesis by (simp add: at_worker_def in_flight_def)
  next
    case check_more
    with True dequeued_update [of i p "?w\<lparr>pc := AtGet\<rparr>" "[]" ?s]
    show ?thesis by (simp add: at_worker_def in_flight_def)
  next
    case wait
    with True show ?thesis by (simp add: at_worker_def list_update_id)
  next
    case (get x rest)
    with True dequeued_update [of i p "\<lparr>pc = Holding x, trace = trace ?w @ [Dequeued x]\<rparr>"
        "[Dequeued x]" "?s\<lparr>set_ids_queue := rest\<rparr>"]
    show ?thesis by (simp add: at_worker_def in_flight_def)
  next
    case (task x)
    let ?b = "save_all_results ?s"
    from True task dequeued_update [of i p
        "\<lparr>pc = AtCheck, trace = trace ?w @ task_events h ?b x\<rparr>" "task_events h ?b x"
        "?s\<lparr>results_queue := results_queue ?s @ task_rows h ?b x\<rparr>"]
    show ?thesis by (simp add: at_worker_def in_flight_def task_events_dequeued)
  qed
qed

lemma in_flight_get_raises: "in_flight (pool_step h (GetRaises i e lost) p) \<subseteq># in_flight p"
proof (cases "i < length (workers p) \<and> pc (workers p ! i) = AtGet")
  case False
  then show ?thesis
    by (cases "pc (workers p ! i)") (simp_all add: at_worker_def get_raises_def list_update_id)
next
  case True
  let ?w = "workers p ! i" and ?s = "shared p"
  let ?q = "if lost then drop 1 (set_ids_queue ?s) else set_ids_queue ?s"
  have "mset ?q \<subseteq># mset (set_ids_queue ?s)"
    by (cases "set_ids_queue ?s") simp_all
  with True dequeued_update [of i p "\<lparr>pc = Done, trace = trace ?w @ [ErrRetrieving e]\<rparr>"
      "[ErrRetrieving e]" "?s\<lparr>set_ids_queue := ?q\<rparr>"]
  show ?thesis by (simp add: at_worker_def get_raises_def in_flight_def)
qed

lemma in_flight_sees_empty: "in_flight (pool_step h (SeesEmpty i) p) \<subseteq># in_flight p"
proof (cases "i < length (workers p) \<and> pc (workers p ! i) = AtCheck")
  case False
  then show ?thesis
    by (cases "pc (workers p ! i)") (simp_all add: at_worker_def sees_empty_def list_update_id)
next
  case True
  with dequeued_update [of i p "(workers p ! i)\<lparr>pc := Done\<rparr>" "[]" "shared p"]
  show ?thesis by (simp add: at_worker_def sees_empty_def in_flight_def)
qed

lemma in_flight_bound:
  "in_flight (run_workers h sched p) \<subseteq># in_flight p"
proof (rule run_workers_invariant [where P = "\<lambda>q. in_flight q \<subseteq># in_flight p"])
  show "\<forall>a q. in_flight q \<subseteq># in_flight p \<longrightarrow> in_flight (pool_step h a q) \<subseteq># in_flight p"
  proof (intro allI impI)
    fix a q assume q: "in_flight q \<subseteq># in_flight p"
    have "in_flight (pool_step h a q) \<subseteq># in_flight q"
      by (cases a)
        (simp_all only: in_flight_run in_flight_get_raises in_flight_sees_empty
          subset_mset.order_refl)
    then show "in_flight (pool_step h a q) \<subseteq># in_flight p"
      using q by (rule subset_mset.order_trans)
  qed
qed simp

lemma mset_concat_split:
  "list_all (\<lambda>w. f w = g w @ k w) ws \<Longrightarrow>
     mset (concat (map f ws)) = mset (concat (map g ws)) + mset (concat (map k ws))"
  by (induction ws) simp_all

lemma tasks_run_dequeued:
  assumes "pool_inv h b rows0 p"
  shows "mset (tasks_run p) \<subseteq># mset (dequeued p)"
proof -
  from assms have "list_all (\<lambda>w. concat (map dequeued_id (trace w))
      = concat (map begun_id (trace w)) @ held w) (workers p)"
    by (simp add: pool_inv_def worker_inv_def list_all_iff)
  then have "mset (concat (map (\<lambda>w. concat (map dequeued_id (trace w))) (workers p)))
      = mset (concat (map (\<lambda>w. concat (map begun_id (trace w))) (workers p)))
        + mset (concat (map held (workers p)))"
    by (rule mset_concat_split)
  then show ?thesis by (simp add: tasks_run_def dequeued_def)
qed

lemma never_twice:
  assumes q: "set_ids_queue s = []" and d: "distinct set_ids"
  shows "mset (dequeued (run_workers h sched (spawn (seed results_file set_ids s)))) \<subseteq># mset set_ids"
    and "mset (tasks_run (run_workers h sched (spawn (seed results_file set_ids s))))
          \<subseteq># mset (dequeued (run_workers h sched (spawn (seed results_file set_ids s))))"
    and "distinct (dequeued (run_workers h sched (spawn (seed results_file set_ids s))))"
    and "distinct (tasks_run (run_workers h sched (spawn (seed results_file set_ids s))))"
proof -
  let ?start = "spawn (seed results_file set_ids s)"
  let ?p = "run_workers h sched ?start"
  from q have "in_flight ?start = mset set_ids"
    by (simp add: in_flight_def spawn_def seed_def dequeued_def fresh_worker_def)
  with in_flight_bound [of h sched ?start] have "in_flight ?p \<subseteq># mset set_ids"
    by simp
  then show a: "mset (dequeued ?p) \<subseteq># mset set_ids"
    unfolding in_flight_def by (rule subset_mset.order_trans [OF mset_subset_eq_add_right])
  have "pool_inv h (results_file \<noteq> None) (results_queue s) ?p"
    by (rule pool_inv_run_workers) (rule pool_inv_spawn)
  then show b: "mset (tasks_run ?p) \<subseteq># mset (dequeued ?p)"
    by (rule tasks_run_dequeued)
  from a d show c: "distinct (dequeued ?p)" by (rule distinct_sub_mset)
  from b c show "distinct (tasks_run ?p)" by (rule distinct_sub_mset)
qed

subsection \<open>What a pipeline run records\<close>

lemma task_events_report_try:
  "try_outcome h set_id = Inl e \<Longrightarrow> ErrProcessing set_id e \<in> set (task_events h save set_id)"
  by (auto simp: task_events_def blank_def try_outcome_def pipeline_defs
      split: sum.splits prod.splits)

lemma task_events_report_cleanup:
  "cleanup_outcome h set_id = Inl e \<Longrightarrow> ErrCleanup set_id e \<in> set (task_events h save set_id)"
  by (auto simp: task_events_def blank_def cleanup_outcome_def row_of_def try_outcome_def
      pipeline_defs split: sum.splits prod.splits)

lemma task_events_local_save:
  "concat (map local_save (task_events h save set_id)) =
     (if maybe_stop_logging h () = Inr () then [(set_id, row_of h set_id)] else [])"
  by (auto simp: task_events_def blank_def row_of_def try_outcome_def pipeline_defs
      split: sum.splits prod.splits)

lemma task_events_stop: "count_list (task_events h save set_id) StopLogging = 1"
  by (auto simp: task_events_def blank_def pipeline_defs split: sum.splits prod.splits)

lemma task_events_compute:
  "(Compute set_id \<in> set (task_events h save set_id)) = (maybe_begin_logging h set_id = Inr ())"
  by (auto simp: task_events_def blank_def pipeline_defs split: sum.splits prod.splits)

lemma task_events_begin_raises:
  "maybe_begin_logging h set_id = Inl e \<Longrightarrow>
     take 3 (task_events h save set_id) = [BeginLogging set_id, ErrProcessing set_id e, StopLogging]"
  by (auto simp: task_events_def blank_def pipeline_defs split: sum.splits prod.splits)

lemma maybe_save_results_unchanged: "snd (maybe_save_results results_file sf) = sf"
  by (simp add: maybe_save_results_def)

lemma run_workers_flag:
  "save_all_results (shared (run_workers h sched (spawn (seed results_file set_ids s))))
     = (results_file \<noteq> None)"
proof -
  have "pool_inv h (results_file \<noteq> None) (results_queue s)
      (run_workers h sched (spawn (seed results_file set_ids s)))"
    by (rule pool_inv_run_workers) (rule pool_inv_spawn)
  then show ?thesis by (simp add: pool_inv_def)
qed

lemma run_workers_not_crashed:
  "list_all (\<lambda>w. \<not> crashed w) (workers (run_workers h sched (spawn (seed results_file set_ids s))))"
proof -
  have "pool_inv h (results_file \<noteq> None) (results_queue s)
      (run_workers h sched (spawn (seed results_file set_ids s)))"
    by (rule pool_inv_run_workers) (rule pool_inv_spawn)
  then show ?thesis by (simp add: pool_inv_def worker_inv_def list_all_iff)
qed

lemma length_filter_mset_eq:
  assumes "mset xs = mset ys"
  shows "length (filter P xs) = length (filter P ys)"
proof -
  have "length (filter P xs) = size (filter_mset P (mset xs))"
    by (simp flip: mset_filter)
  also from assms have "\<dots> = size (filter_mset P (mset ys))"
    by (simp only:)
  also have "\<dots> = length (filter P ys)"
    by (simp flip: mset_filter)
  finally show ?thesis .
qed

lemma worker_steps_after_task:
  assumes "pc w = Holding set_id" and "set_ids_queue s = next_id # rest"
  shows "snd (worker_steps h 4 (s, w)) =
     \<lparr>pc = AtCheck,
      trace = trace w @ task_events h (save_all_results s) set_id @ [Dequeued next_id]
                @ task_events h (save_all_results s) next_id\<rparr>"
  using assms by (simp add: eval_nat_numeral worker_step_def run_task_eq)

subsection \<open>Workers that have returned, workers that wait\<close>

lemma done_worker_step:
  assumes i: "i < length (workers p)" and d: "pc (workers p ! i) = Done"
  shows "workers (pool_step h a p) ! i = workers p ! i"
proof -
  have "workers (at_worker k f p) ! i = workers p ! i"
    if "f (shared p) (workers p ! i) = (shared p, workers p ! i)" for k f
  proof (cases "k = i")
    case True
    with that i show ?thesis by (simp add: at_worker_def)
  next
    case False
    then show ?thesis by (simp add: at_worker_def split: prod.splits)
  qed
  with d show ?thesis
    by (cases a) (simp_all add: worker_step_def get_raises_def sees_empty_def)
qed

lemma done_worker_stays:
  assumes "i < length (workers p)" and "pc (workers p ! i) = Done"
  shows "workers (run_workers h sched p) ! i = workers p ! i"
proof -
  let ?P = "\<lambda>q :: pool. i < length (workers q) \<and> workers q ! i = workers p ! i"
  have "?P (run_workers h sched p)"
  proof (rule run_workers_invariant [where P = ?P])
    show "\<forall>a q. ?P q \<longrightarrow> ?P (pool_step h a q)"
    proof (intro allI impI)
      fix a q assume q: "?P q"
      with assms(2) have "pc (workers q ! i) = Done" by simp
      with q have "workers (pool_step h a q) ! i = workers q ! i"
        by (simp add: done_worker_step)
      with q show "?P (pool_step h a q)" by (simp add: pool_step_length)
    qed
    from assms(1) show "?P p" by simp
  qed
  then show ?thesis by simp
qed

lemma blocked_step:
  assumes j: "j < length (workers p)" and b: "blocked (shared p) (workers p ! j)"
  shows "blocked (shared (pool_step h (Run i) p)) (workers (pool_step h (Run i) p) ! j)"
proof (cases "i < length (workers p)")
  case False
  with b show ?thesis by (simp add: at_worker_def)
next
  case True
  obtain s' w' where sw: "worker_step h (shared p) (workers p ! i) = (s', w')"
    by (cases "worker_step h (shared p) (workers p ! i)")
  from b have e: "set_ids_queue (shared p) = []" by (simp add: blocked_def)
  with worker_step_queue_empty [of "shared p" h "workers p ! i"] sw
  have e': "set_ids_queue s' = []" by simp
  show ?thesis
  proof (cases "i = j")
    case True
    from b have "quiescent (shared p) (workers p ! j)" by (simp add: quiescent_def)
    then have "worker_step h (shared p) (workers p ! j) = (shared p, workers p ! j)"
      by (rule worker_step_quiescent)
    with True j b show ?thesis by (simp add: at_worker_def list_update_id)
  next
    case False
    with True sw b e' show ?thesis by (simp add: at_worker_def blocked_def)
  qed
qed

lemma blocked_forever:
  assumes "j < length (workers p)" and "blocked (shared p) (workers p ! j)"
    and "fault_free sched"
  shows "\<not> joined (run_workers h sched p)"
proof -
  let ?P = "\<lambda>q :: pool. j < length (workers q) \<and> blocked (shared q) (workers q ! j)"
  have "?P (run_workers h sched p)"
  proof (rule run_workers_invariant_fault_free [where P = ?P])
    show "\<forall>i q. ?P q \<longrightarrow> ?P (pool_step h (Run i) q)"
    proof (intro allI impI conjI)
      fix i and q :: pool assume q: "?P q"
      then show "j < length (workers (pool_step h (Run i) q))"
        by (simp only: pool_step_length)
      from q show "blocked (shared (pool_step h (Run i) q)) (workers (pool_step h (Run i) q) ! j)"
        by (simp only: blocked_step)
    qed
    from assms show "fault_free sched" and "?P p" by simp_all
  qed
  then have "j < length (workers (run_workers h sched p))"
    and "\<not> terminated (workers (run_workers h sched p) ! j)"
    by (simp_all add: blocked_def terminated_def)
  then show ?thesis by (auto simp: joined_def list_all_length)
qed

lemma run_workers_append:
  "run_workers h (pre @ sched) p = run_workers h sched (run_sched h pre p)"
  by (simp add: run_workers_def run_sched_def)

section \<open>The claims\<close>

text \<open>
  Claim C1. For every list of distinct set IDs passed to \<open>process_ids\<close>, each set ID is
  dequeued from the task queue and run through the per-task pipeline exactly once across
  the worker pool: none is processed twice and none is skipped.

  A set ID is skipped when the only worker leaves its loop early, and when there is no
  worker. With one worker and the one set ID \<open>1\<close>: if the \<open>get()\<close> of the worker raises,
  the handler breaks out of the loop; if the first loop test finds the queue empty
  because the ID is still with the feeder thread, the loop is not entered. With
  \<open>num_workers = 0\<close> no process is started. Each time \<open>process_ids\<close> returns with the ID
  still in the queue and no pipeline run. A second call with the same list on the solver
  that the first of these runs leaves then runs the pipeline of \<open>1\<close> twice.
\<close>

theorem set_id_left_in_queue:
  "map_option (\<lambda>r. set_ids_queue (fst r))
     (process_ids placeholder_hooks [Run 0, GetRaises 0 (Exception ''pipe closed'') False]
        [''1''] None (init 1, Map.empty)) = Some [''1''] \<and>
   tasks_run (run_workers placeholder_hooks [Run 0, GetRaises 0 (Exception ''pipe closed'') False]
     (spawn (seed None [''1''] (init 1)))) = [] \<and>
   map_option (\<lambda>r. set_ids_queue (fst r))
     (process_ids placeholder_hooks [SeesEmpty 0] [''1''] None (init 1, Map.empty)) = Some [''1''] \<and>
   tasks_run (run_workers placeholder_hooks [SeesEmpty 0] (spawn (seed None [''1''] (init 1)))) = [] \<and>
   map_option (\<lambda>r. set_ids_queue (fst r))
     (process_ids placeholder_hooks [] [''1''] None (init 0, Map.empty)) = Some [''1''] \<and>
   tasks_run (run_workers placeholder_hooks [] (spawn (seed None [''1''] (init 0)))) = [] \<and>
   map_option fst
     (process_ids placeholder_hooks [Run 0, GetRaises 0 (Exception ''pipe closed'') False]
        [''1''] None (init 1, Map.empty)) = Some ((init 1)\<lparr>set_ids_queue := [''1'']\<rparr>) \<and>
   tasks_run (run_workers placeholder_hooks []
     (spawn (seed None [''1''] ((init 1)\<lparr>set_ids_queue := [''1'']\<rparr>)))) = [''1'', ''1'']"
proof -
  let ?a = "run_workers placeholder_hooks [Run 0, GetRaises 0 (Exception ''pipe closed'') False]
     (spawn (seed None [''1''] (init 1)))"
  let ?b = "run_workers placeholder_hooks [SeesEmpty 0] (spawn (seed None [''1''] (init 1)))"
  let ?c = "run_workers placeholder_hooks [] (spawn (seed None [''1''] (init 0)))"
  have ja: "joined ?a" and qa: "set_ids_queue (shared ?a) = [''1'']" and ta: "tasks_run ?a = []"
    by code_simp+
  have jb: "joined ?b" and qb: "set_ids_queue (shared ?b) = [''1'']" and tb: "tasks_run ?b = []"
    by code_simp+
  have jc: "joined ?c" and qc: "set_ids_queue (shared ?c) = [''1'']" and tc: "tasks_run ?c = []"
    by code_simp+
  from ja qa have a: "map_option (\<lambda>r. set_ids_queue (fst r))
     (process_ids placeholder_hooks [Run 0, GetRaises 0 (Exception ''pipe closed'') False]
        [''1''] None (init 1, Map.empty)) = Some [''1'']"
    by (simp add: process_ids_def Let_def maybe_save_results_def)
  from jb qb have b: "map_option (\<lambda>r. set_ids_queue (fst r))
     (process_ids placeholder_hooks [SeesEmpty 0] [''1''] None (init 1, Map.empty)) = Some [''1'']"
    by (simp add: process_ids_def Let_def maybe_save_results_def)
  from jc qc have c: "map_option (\<lambda>r. set_ids_queue (fst r))
     (process_ids placeholder_hooks [] [''1''] None (init 0, Map.empty)) = Some [''1'']"
    by (simp add: process_ids_def Let_def maybe_save_results_def)
  have sa: "shared ?a = (init 1)\<lparr>set_ids_queue := [''1'']\<rparr>"
    by code_simp
  with ja have d: "map_option fst
     (process_ids placeholder_hooks [Run 0, GetRaises 0 (Exception ''pipe closed'') False]
        [''1''] None (init 1, Map.empty)) = Some ((init 1)\<lparr>set_ids_queue := [''1'']\<rparr>)"
    by (simp add: process_ids_def Let_def maybe_save_results_def)
  have e: "tasks_run (run_workers placeholder_hooks []
     (spawn (seed None [''1''] ((init 1)\<lparr>set_ids_queue := [''1'']\<rparr>)))) = [''1'', ''1'']"
    by code_simp
  from a ta b tb c tc d e show ?thesis by (intro conjI)
qed

text \<open>
  Claim C1, amended. For every list of distinct set IDs passed to \<open>process_ids\<close> on a
  solver whose task queue is empty, no set ID is dequeued twice and none is run through
  the per-task pipeline twice across the worker pool, for every interleaving of the
  workers and whatever \<open>get()\<close> and the loop tests do. If the solver has at least one
  worker, no \<open>get()\<close> raises and every loop test sees the queue as it is, each set ID is
  dequeued and run through the pipeline exactly once: none is skipped. All of it is
  stated of the pool once every worker is quiescent, so it covers the runs in which a
  worker waits forever as well.
\<close>

theorem each_set_id_processed_exactly_once:
  assumes "distinct set_ids" and "set_ids_queue s = []"
    and p: "p = run_workers h sched (spawn (seed results_file set_ids s))"
  shows "distinct (dequeued p) \<and> distinct (tasks_run p) \<and>
    mset (tasks_run p) \<subseteq># mset (dequeued p) \<and> mset (dequeued p) \<subseteq># mset set_ids \<and>
    (0 < num_workers s \<and> fault_free sched \<longrightarrow>
       set_ids_queue (shared p) = [] \<and> dequeued p = tasks_run p \<and>
       mset (tasks_run p) = mset set_ids \<and> set (tasks_run p) = set set_ids)"
proof -
  from assms(2,1) have a: "mset (dequeued p) \<subseteq># mset set_ids"
    unfolding p by (rule never_twice(1))
  from assms(2,1) have b: "mset (tasks_run p) \<subseteq># mset (dequeued p)"
    unfolding p by (rule never_twice(2))
  from assms(2,1) have c: "distinct (dequeued p)"
    unfolding p by (rule never_twice(3))
  from assms(2,1) have d: "distinct (tasks_run p)"
    unfolding p by (rule never_twice(4))
  have "set_ids_queue (shared p) = [] \<and> dequeued p = tasks_run p \<and>
      mset (tasks_run p) = mset set_ids \<and> set (tasks_run p) = set set_ids"
    if w: "0 < num_workers s" and f: "fault_free sched"
  proof -
    from w assms(2) f have e: "set_ids_queue (shared p) = []"
      unfolding p by (rule all_ids_run(1))
    from w assms(2) f have m: "mset (tasks_run p) = mset set_ids"
      unfolding p by (rule all_ids_run(2))
    from w assms(2) f have t: "dequeued p = tasks_run p"
      unfolding p by (rule all_ids_run(3))
    from m have "set (tasks_run p) = set set_ids"
      by (rule mset_eq_setD)
    with e t m show ?thesis by (intro conjI)
  qed
  with a b c d show ?thesis by (intro conjI impI) simp_all
qed

theorem each_set_id_processed_exactly_once_witness:
  "distinct [''1'', ''2'', ''3''] \<and> set_ids_queue (init 2) = [] \<and> 0 < num_workers (init 2) \<and>
   fault_free [Run 0, Run 1, Run 1, Run 0] \<and>
   tasks_run (run_workers placeholder_hooks [Run 0, Run 1, Run 1, Run 0]
      (spawn (seed None [''1'', ''2'', ''3''] (init 2)))) = [''2'', ''3'', ''1''] \<and>
   distinct (tasks_run (run_workers placeholder_hooks [Run 0, Run 1, Run 1, Run 0]
      (spawn (seed None [''1'', ''2'', ''3''] (init 2))))) \<and>
   mset (tasks_run (run_workers placeholder_hooks [Run 0, Run 1, Run 1, Run 0]
      (spawn (seed None [''1'', ''2'', ''3''] (init 2))))) = mset [''1'', ''2'', ''3'']"
proof -
  have h1: "distinct [''1'', ''2'', ''3'']" by simp
  have h2: "set_ids_queue (init 2) = []" by (simp add: init_def)
  have h3: "0 < num_workers (init 2)" by (simp add: init_def)
  have h4: "fault_free [Run 0, Run 1, Run 1, Run 0]" by (simp add: fault_free_def)
  have run: "tasks_run (run_workers placeholder_hooks [Run 0, Run 1, Run 1, Run 0]
      (spawn (seed None [''1'', ''2'', ''3''] (init 2)))) = [''2'', ''3'', ''1'']"
    by code_simp
  note inst = each_set_id_processed_exactly_once [OF h1 h2 refl, of placeholder_hooks
      "[Run 0, Run 1, Run 1, Run 0]" None]
  from inst have d: "distinct (tasks_run (run_workers placeholder_hooks [Run 0, Run 1, Run 1, Run 0]
      (spawn (seed None [''1'', ''2'', ''3''] (init 2)))))"
    by (rule conjunct2 [THEN conjunct1])
  from inst h3 h4
  have m: "mset (tasks_run (run_workers placeholder_hooks [Run 0, Run 1, Run 1, Run 0]
      (spawn (seed None [''1'', ''2'', ''3''] (init 2))))) = mset [''1'', ''2'', ''3'']"
    by blast
  from h1 h2 h3 h4 run d m show ?thesis by (intro conjI)
qed

lemma process_ids_saves_nothing:
  assumes "process_ids h sched set_ids results_file (s, fs) = Some (s', fs')"
  shows "fs' = fs \<and> s' = shared (run_workers h sched (spawn (seed results_file set_ids s)))"
  using assms
  by (simp add: process_ids_def Let_def maybe_save_results_unchanged split: if_splits)

text \<open>
  Claim C2. Called with a \<open>results_file\<close> that is not \<open>None\<close>, \<open>process_ids\<close> drains the
  result channel after all workers have joined and writes every collected row to that
  file in a single pass after a header line, the header also when there is no row; with
  \<open>None\<close> nothing is written; the unified mode is selected exactly when \<open>results_file\<close>
  is not \<open>None\<close>.

  The docstring of \<open>maybe_save_results\<close> says that it saves all results of the queue to
  the file, and its first branch prints that it is saving them, but the body has a
  placeholder comment in the place of the saving logic. Called with the one set ID
  \<open>1\<close> and the file \<open>out.csv\<close>, \<open>process_ids\<close> sets the flag, the worker puts the row on
  the results queue, and after the join only the line is printed: the row is still in
  the queue and there is no file \<open>out.csv\<close>. By \<open>process_ids_saves_nothing\<close> it is so for
  every call that returns.
\<close>

theorem results_file_is_not_written:
  "map_option (\<lambda>r. (save_all_results (fst r), results_queue (fst r), snd r ''out.csv''))
     (process_ids placeholder_hooks [] [''1''] (Some ''out.csv'') (init 1, Map.empty))
     = Some (True, [''Aggregated result string.''], None) \<and>
   fst (maybe_save_results (Some ''out.csv'')
     (shared (run_workers placeholder_hooks [] (spawn (seed (Some ''out.csv'') [''1''] (init 1)))),
      Map.empty)) = SavingAllResultsTo (Some ''out.csv'')"
proof -
  let ?p = "run_workers placeholder_hooks [] (spawn (seed (Some ''out.csv'') [''1''] (init 1)))"
  have j: "joined ?p" by code_simp
  have f: "save_all_results (shared ?p)" by code_simp
  have q: "results_queue (shared ?p) = [''Aggregated result string.'']" by code_simp
  from j f q show ?thesis
    by (simp add: process_ids_def Let_def maybe_save_results_def)
qed

lemma second_worker_blocked:
  assumes "fault_free sched"
  shows "process_ids placeholder_hooks ([Run 0, Run 1, Run 0] @ sched) [''1''] None (init 2, fs)
     = None"
proof -
  let ?p = "run_sched placeholder_hooks [Run 0, Run 1, Run 0] (spawn (seed None [''1''] (init 2)))"
  have "1 < length (workers ?p)" by code_simp
  moreover have "blocked (shared ?p) (workers ?p ! 1)" by code_simp
  ultimately have "\<not> joined (run_workers placeholder_hooks sched ?p)"
    using assms by (rule blocked_forever)
  then have "\<not> joined (run_workers placeholder_hooks ([Run 0, Run 1, Run 0] @ sched)
      (spawn (seed None [''1''] (init 2))))"
    unfolding run_workers_append .
  then show ?thesis
    by (simp add: process_ids_def Let_def)
qed

text \<open>
  Claim C3. For every non-empty list of set IDs a call of \<open>process_ids\<close> terminates when
  the processing function does; a worker that saw the queue non-empty and then finds it
  empty on the pop gets an empty signal instead of waiting forever.

  The source pops with the blocking \<open>get()\<close>. With two workers and one set ID, both workers
  pass the loop test before either pops; the first takes the ID, runs it and returns,
  the second waits in \<open>get()\<close> on a queue that nobody fills again, so \<open>join()\<close> never
  returns. By \<open>second_worker_blocked\<close> no continuation of the interleaving changes that.
\<close>

theorem second_worker_waits_forever:
  "map pc (workers (run_workers placeholder_hooks [Run 0, Run 1, Run 0]
      (spawn (seed None [''1''] (init 2))))) = [Done, AtGet] \<and>
   set_ids_queue (shared (run_workers placeholder_hooks [Run 0, Run 1, Run 0]
      (spawn (seed None [''1''] (init 2))))) = [] \<and>
   tasks_run (run_workers placeholder_hooks [Run 0, Run 1, Run 0]
      (spawn (seed None [''1''] (init 2)))) = [''1''] \<and>
   process_ids placeholder_hooks [Run 0, Run 1, Run 0] [''1''] None (init 2, Map.empty) = None"
proof -
  let ?p = "run_workers placeholder_hooks [Run 0, Run 1, Run 0] (spawn (seed None [''1''] (init 2)))"
  have a: "map pc (workers ?p) = [Done, AtGet]" by code_simp
  have b: "set_ids_queue (shared ?p) = []" by code_simp
  have c: "tasks_run ?p = [''1'']" by code_simp
  have "\<not> joined ?p" by code_simp
  then have d: "process_ids placeholder_hooks [Run 0, Run 1, Run 0] [''1''] None (init 2, Map.empty) = None"
    by (simp add: process_ids_def Let_def)
  from a b c d show ?thesis by (intro conjI)
qed

text \<open>
  Claim C4. For every set ID whose pipeline raises an exception, the worker loop does not
  terminate: the failure is reported and the worker goes on to the next queued set ID;
  no exception of a task leaves \<open>process_ids\<close>. The pipeline never raises, whatever the
  hooks do; the worker holding \<open>set_id\<close> is back at the loop test after the pipeline,
  with the report of each failure in its trace; three steps later it has run the
  pipeline of the next queued ID; and no worker of any run is killed by an exception.
\<close>

theorem task_failure_is_contained:
  assumes "pc w = Holding set_id" and "set_ids_queue s = next_id # rest"
  shows "fst (pipeline h (save_all_results s) set_id t) = Inr () \<and>
    pc (snd (worker_step h s w)) = AtCheck \<and>
    (\<forall>e. try_outcome h set_id = Inl e \<longrightarrow>
       ErrProcessing set_id e \<in> set (trace (snd (worker_step h s w)))) \<and>
    (\<forall>e. cleanup_outcome h set_id = Inl e \<longrightarrow>
       ErrCleanup set_id e \<in> set (trace (snd (worker_step h s w)))) \<and>
    snd (worker_steps h 4 (s, w)) =
      \<lparr>pc = AtCheck,
       trace = trace w @ task_events h (save_all_results s) set_id @ [Dequeued next_id]
                 @ task_events h (save_all_results s) next_id\<rparr> \<and>
    list_all (\<lambda>w. \<not> crashed w)
      (workers (run_workers h sched (spawn (seed results_file set_ids s0))))"
proof -
  from assms(1) have step: "snd (worker_step h s w) =
      \<lparr>pc = AtCheck, trace = trace w @ task_events h (save_all_results s) set_id\<rparr>"
    by (simp add: worker_step_def run_task_eq)
  have "ErrProcessing set_id e \<in> set (trace (snd (worker_step h s w)))"
    if "try_outcome h set_id = Inl e" for e
    using task_events_report_try [OF that, of "save_all_results s"] step by simp
  moreover have "ErrCleanup set_id e \<in> set (trace (snd (worker_step h s w)))"
    if "cleanup_outcome h set_id = Inl e" for e
    using task_events_report_cleanup [OF that, of "save_all_results s"] step by simp
  moreover from step have "pc (snd (worker_step h s w)) = AtCheck" by simp
  moreover note pipeline_returns [of h "save_all_results s" set_id t]
    worker_steps_after_task [OF assms, of h]
    run_workers_not_crashed [of h sched results_file set_ids s0]
  ultimately show ?thesis by blast
qed

theorem task_failure_is_contained_witness:
  "pc \<lparr>pc = Holding ''7'', trace = []\<rparr> = Holding ''7'' \<and>
   set_ids_queue (seed None [''8'', ''9''] (init 1)) = ''8'' # [''9''] \<and>
   try_outcome compute_and_stop_raise ''7'' = Inl (Exception ''no data'') \<and>
   cleanup_outcome compute_and_stop_raise ''7'' = Inl (Exception ''log already closed'') \<and>
   pc (snd (worker_step compute_and_stop_raise (seed None [''8'', ''9''] (init 1))
        \<lparr>pc = Holding ''7'', trace = []\<rparr>)) = AtCheck \<and>
   ErrProcessing ''7'' (Exception ''no data'')
     \<in> set (trace (snd (worker_step compute_and_stop_raise (seed None [''8'', ''9''] (init 1))
        \<lparr>pc = Holding ''7'', trace = []\<rparr>))) \<and>
   ErrCleanup ''7'' (Exception ''log already closed'')
     \<in> set (trace (snd (worker_step compute_and_stop_raise (seed None [''8'', ''9''] (init 1))
        \<lparr>pc = Holding ''7'', trace = []\<rparr>)))"
proof -
  let ?w = "\<lparr>pc = Holding ''7'', trace = []\<rparr>"
  let ?s = "seed None [''8'', ''9''] (init 1)"
  have h1: "pc ?w = Holding ''7''" by simp
  have h2: "set_ids_queue ?s = ''8'' # [''9'']" by (simp add: seed_def init_def)
  have t: "try_outcome compute_and_stop_raise ''7'' = Inl (Exception ''no data'')"
    by (simp add: try_outcome_def compute_and_stop_raise_def placeholder_hooks_def)
  have c: "cleanup_outcome compute_and_stop_raise ''7'' = Inl (Exception ''log already closed'')"
    by (simp add: cleanup_outcome_def compute_and_stop_raise_def placeholder_hooks_def)
  note inst = task_failure_is_contained [OF h1 h2, where h = compute_and_stop_raise]
  from inst have a: "pc (snd (worker_step compute_and_stop_raise ?s ?w)) = AtCheck"
    by (rule conjunct2 [THEN conjunct1])
  from inst t have b: "ErrProcessing ''7'' (Exception ''no data'')
      \<in> set (trace (snd (worker_step compute_and_stop_raise ?s ?w)))"
    by blast
  from inst c have d: "ErrCleanup ''7'' (Exception ''log already closed'')
      \<in> set (trace (snd (worker_step compute_and_stop_raise ?s ?w)))"
    by blast
  from h1 h2 t c a b d show ?thesis by (intro conjI)
qed

text \<open>
  Claim C5. A failure raised by the begin-logging hook does not abort the pipeline of
  that set ID: compute is still invoked.

  In the source begin-logging is the first statement of the \<open>try\<close> block that holds
  compute, aggregate and the put; its exception leaves the block.
\<close>

theorem begin_logging_failure_skips_compute:
  "maybe_begin_logging begin_raises ''1'' = Inl (Exception ''cannot open log'') \<and>
   map trace (workers (run_workers begin_raises [] (spawn (seed None [''1''] (init 1))))) =
     [[Dequeued ''1'', BeginLogging ''1'', ErrProcessing ''1'' (Exception ''cannot open log''),
       StopLogging, SaveLocal ''1'' []]] \<and>
   Compute ''1'' \<notin> set (concat (map trace
     (workers (run_workers begin_raises [] (spawn (seed None [''1''] (init 1)))))))"
proof -
  have a: "maybe_begin_logging begin_raises ''1'' = Inl (Exception ''cannot open log'')"
    by (simp add: begin_raises_def)
  have b: "map trace (workers (run_workers begin_raises [] (spawn (seed None [''1''] (init 1))))) =
     [[Dequeued ''1'', BeginLogging ''1'', ErrProcessing ''1'' (Exception ''cannot open log''),
       StopLogging, SaveLocal ''1'' []]]"
    by code_simp
  from a b show ?thesis by simp
qed

text \<open>
  Claim C5, amended. For every dequeued set ID, compute is invoked exactly when
  begin-logging returns. A failure raised by begin-logging is reported and skips compute,
  aggregate and the put for that set ID; stop-logging runs next.
\<close>

theorem compute_runs_iff_begin_logging_returns:
  "(Compute set_id \<in> set (task_events h save set_id)) = (maybe_begin_logging h set_id = Inr ()) \<and>
   (\<forall>e. maybe_begin_logging h set_id = Inl e \<longrightarrow>
      take 3 (task_events h save set_id) = [BeginLogging set_id, ErrProcessing set_id e, StopLogging] \<and>
      task_rows h save set_id = [])"
proof -
  have "task_rows h save set_id = []" if "maybe_begin_logging h set_id = Inl e" for e
    using that by (simp add: task_rows_eq succeeded_def try_outcome_def)
  then show ?thesis
    using task_events_compute [of set_id h save] task_events_begin_raises [of h set_id _ save]
    by blast
qed

theorem compute_runs_iff_begin_logging_returns_witness:
  "maybe_begin_logging begin_raises ''1'' = Inl (Exception ''cannot open log'') \<and>
   Compute ''1'' \<notin> set (task_events begin_raises True ''1'') \<and>
   take 3 (task_events begin_raises True ''1'') =
     [BeginLogging ''1'', ErrProcessing ''1'' (Exception ''cannot open log''), StopLogging] \<and>
   task_rows begin_raises True ''1'' = [] \<and>
   maybe_begin_logging placeholder_hooks ''1'' = Inr () \<and>
   Compute ''1'' \<in> set (task_events placeholder_hooks True ''1'')"
proof -
  have a: "maybe_begin_logging begin_raises ''1'' = Inl (Exception ''cannot open log'')"
    by (simp add: begin_raises_def)
  have b: "maybe_begin_logging placeholder_hooks ''1'' = Inr ()"
    by (simp add: placeholder_hooks_def)
  from a compute_runs_iff_begin_logging_returns [of "''1''" begin_raises True]
  have c: "Compute ''1'' \<notin> set (task_events begin_raises True ''1'')"
    and d: "take 3 (task_events begin_raises True ''1'') =
     [BeginLogging ''1'', ErrProcessing ''1'' (Exception ''cannot open log''), StopLogging]"
    and e: "task_rows begin_raises True ''1'' = []"
    by simp_all
  from b compute_runs_iff_begin_logging_returns [of "''1''" placeholder_hooks True]
  have f: "Compute ''1'' \<in> set (task_events placeholder_hooks True ''1'')"
    by simp
  from a c d e b f show ?thesis by (intro conjI)
qed

text \<open>
  Claim C6. Begin-logging, stop-logging and local-persist each have their failures
  caught and reported on their own, without re-raising; none masks a result already
  computed; in particular an exception of stop-logging does not prevent local-persist.

  In the source stop-logging and local-persist are two statements of one \<open>try\<close> block:
  an exception of the first skips the second.
\<close>

theorem stop_logging_failure_skips_local_persist:
  "maybe_stop_logging stop_raises () = Inl (Exception ''log already closed'') \<and>
   map trace (workers (run_workers stop_raises []
      (spawn (seed (Some ''out.csv'') [''1''] (init 1))))) =
     [[Dequeued ''1'', BeginLogging ''1'', Compute ''1'', Aggregate,
       ResultPut ''Aggregated result string.'', StopLogging,
       ErrCleanup ''1'' (Exception ''log already closed'')]] \<and>
   concat (map local_save (concat (map trace (workers (run_workers stop_raises []
      (spawn (seed (Some ''out.csv'') [''1''] (init 1)))))))) = []"
proof -
  have a: "maybe_stop_logging stop_raises () = Inl (Exception ''log already closed'')"
    by (simp add: stop_raises_def)
  have b: "map trace (workers (run_workers stop_raises []
      (spawn (seed (Some ''out.csv'') [''1''] (init 1))))) =
     [[Dequeued ''1'', BeginLogging ''1'', Compute ''1'', Aggregate,
       ResultPut ''Aggregated result string.'', StopLogging,
       ErrCleanup ''1'' (Exception ''log already closed'')]]"
    by code_simp
  from a b show ?thesis by simp
qed

text \<open>
  Claim C6, amended. The failures of begin-logging, stop-logging and local-persist are
  caught and reported without re-raising, by two handlers: the one of the \<open>try\<close> block
  for begin-logging, the one of the \<open>finally\<close> block for stop-logging and local-persist.
  None of them removes a row put on the result channel. Local-persist is invoked for a
  set ID exactly when stop-logging returned.
\<close>

theorem best_effort_failures_are_caught:
  "fst (pipeline h save set_id t) = Inr () \<and>
   (\<forall>e. maybe_begin_logging h set_id = Inl e \<longrightarrow>
      ErrProcessing set_id e \<in> set (task_events h save set_id)) \<and>
   (\<forall>e. cleanup_outcome h set_id = Inl e \<longrightarrow>
      ErrCleanup set_id e \<in> set (task_events h save set_id)) \<and>
   task_rows h save set_id = (if save \<and> succeeded h set_id then [row_of h set_id] else []) \<and>
   concat (map local_save (task_events h save set_id)) =
     (if maybe_stop_logging h () = Inr () then [(set_id, row_of h set_id)] else [])"
proof -
  have "ErrProcessing set_id e \<in> set (task_events h save set_id)"
    if "maybe_begin_logging h set_id = Inl e" for e
  proof -
    from that have "try_outcome h set_id = Inl e" by (simp add: try_outcome_def)
    then show ?thesis by (rule task_events_report_try)
  qed
  then show ?thesis
    using pipeline_returns [of h save set_id t] task_events_report_cleanup [of h set_id _ save]
      task_rows_eq [of h save set_id] task_events_local_save [of h save set_id]
    by blast
qed

theorem best_effort_failures_are_caught_witness:
  "maybe_begin_logging begin_raises ''1'' = Inl (Exception ''cannot open log'') \<and>
   ErrProcessing ''1'' (Exception ''cannot open log'') \<in> set (task_events begin_raises True ''1'') \<and>
   cleanup_outcome stop_raises ''1'' = Inl (Exception ''log already closed'') \<and>
   ErrCleanup ''1'' (Exception ''log already closed'') \<in> set (task_events stop_raises True ''1'') \<and>
   succeeded stop_raises ''1'' \<and>
   task_rows stop_raises True ''1'' = [''Aggregated result string.''] \<and>
   concat (map local_save (task_events stop_raises True ''1'')) = []"
proof -
  have a: "maybe_begin_logging begin_raises ''1'' = Inl (Exception ''cannot open log'')"
    by (simp add: begin_raises_def)
  have c: "cleanup_outcome stop_raises ''1'' = Inl (Exception ''log already closed'')"
    by (simp add: cleanup_outcome_def stop_raises_def)
  have s: "succeeded stop_raises ''1''"
    and r: "row_of stop_raises ''1'' = ''Aggregated result string.''"
    by (simp_all add: succeeded_def row_of_def try_outcome_def stop_raises_def placeholder_hooks_def)
  have n: "maybe_stop_logging stop_raises () \<noteq> Inr ()"
    by (simp add: stop_raises_def)
  from a best_effort_failures_are_caught [of begin_raises True "''1''"]
  have b: "ErrProcessing ''1'' (Exception ''cannot open log'') \<in> set (task_events begin_raises True ''1'')"
    by blast
  note inst = best_effort_failures_are_caught [of stop_raises True "''1''"]
  from c inst
  have d: "ErrCleanup ''1'' (Exception ''log already closed'') \<in> set (task_events stop_raises True ''1'')"
    by blast
  from s r inst have e: "task_rows stop_raises True ''1'' = [''Aggregated result string.'']"
    by simp
  from n inst have f: "concat (map local_save (task_events stop_raises True ''1'')) = []"
    by simp
  from a b c d s e f show ?thesis by (intro conjI)
qed

text \<open>
  Claim C7. For every dequeued set ID stop-logging runs on every exit path of the
  pipeline, and local-persist is invoked once, whether or not compute and aggregate
  succeeded, with the empty string when they failed.

  When stop-logging itself raises, local-persist is not invoked.
\<close>

theorem local_persist_skipped_when_stop_logging_raises:
  "maybe_stop_logging compute_and_stop_raise () = Inl (Exception ''log already closed'') \<and>
   map trace (workers (run_workers compute_and_stop_raise [] (spawn (seed None [''7''] (init 1))))) =
     [[Dequeued ''7'', BeginLogging ''7'', Compute ''7'', ErrProcessing ''7'' (Exception ''no data''),
       StopLogging, ErrCleanup ''7'' (Exception ''log already closed'')]] \<and>
   concat (map local_save (concat (map trace (workers (run_workers compute_and_stop_raise []
      (spawn (seed None [''7''] (init 1)))))))) = []"
proof -
  have a: "maybe_stop_logging compute_and_stop_raise () = Inl (Exception ''log already closed'')"
    by (simp add: compute_and_stop_raise_def)
  have b: "map trace (workers (run_workers compute_and_stop_raise []
      (spawn (seed None [''7''] (init 1))))) =
     [[Dequeued ''7'', BeginLogging ''7'', Compute ''7'', ErrProcessing ''7'' (Exception ''no data''),
       StopLogging, ErrCleanup ''7'' (Exception ''log already closed'')]]"
    by code_simp
  from a b show ?thesis by simp
qed

text \<open>
  Claim C7, amended. For every dequeued set ID stop-logging is called exactly once,
  whether steps 1 to 4 returned or raised; if stop-logging returns, local-persist is
  invoked exactly once for that set ID, with the aggregated row, or with the empty
  string when begin-logging, compute or aggregate failed.
\<close>

theorem stop_logging_runs_once_then_local_persist:
  "count_list (task_events h save set_id) StopLogging = 1 \<and>
   (maybe_stop_logging h () = Inr () \<longrightarrow>
      concat (map local_save (task_events h save set_id)) = [(set_id, row_of h set_id)]) \<and>
   (\<not> succeeded h set_id \<longrightarrow> row_of h set_id = [])"
proof -
  have "row_of h set_id = []" if "\<not> succeeded h set_id"
    using that by (simp add: succeeded_def row_of_def split: sum.splits)
  then show ?thesis
    using task_events_stop [of h save set_id] task_events_local_save [of h save set_id]
    by simp
qed

theorem stop_logging_runs_once_then_local_persist_witness:
  "maybe_stop_logging (compute_raises_on ''2'') () = Inr () \<and>
   \<not> succeeded (compute_raises_on ''2'') ''2'' \<and>
   count_list (task_events (compute_raises_on ''2'') False ''2'') StopLogging = 1 \<and>
   concat (map local_save (task_events (compute_raises_on ''2'') False ''2'')) = [(''2'', [])]"
proof -
  have a: "maybe_stop_logging (compute_raises_on ''2'') () = Inr ()"
    by (simp add: compute_raises_on_def placeholder_hooks_def)
  have b: "\<not> succeeded (compute_raises_on ''2'') ''2''"
    by (simp add: succeeded_def try_outcome_def compute_raises_on_def placeholder_hooks_def)
  note inst = stop_logging_runs_once_then_local_persist [of "compute_raises_on ''2''" False "''2''"]
  from inst have c: "count_list (task_events (compute_raises_on ''2'') False ''2'') StopLogging = 1"
    by (rule conjunct1)
  from inst a b
  have d: "concat (map local_save (task_events (compute_raises_on ''2'') False ''2'')) = [(''2'', [])]"
    by simp
  from a b c d show ?thesis by (intro conjI)
qed

text \<open>
  Claim C8. A row is put on the result channel only when the unified-save flag is set,
  and exactly one row per set ID whose steps 1 to 3 (begin-logging, compute, aggregate)
  returned; so with the flag set the number of rows in the channel after the run is the
  number of tasks whose compute and aggregate succeeded. The rows put are those of the
  successful tasks that were run, for every schedule; when every ID is run (at least one
  worker, no failing \<open>get()\<close>, every loop test seeing the queue as it is) that is the
  number of successful IDs of the input.
\<close>

theorem rows_in_channel_match_successful_tasks:
  assumes p: "p = run_workers h sched (spawn (seed results_file set_ids s))"
  shows "mset (results_queue (shared p)) = mset (results_queue s) + mset (rows_put p) \<and>
    rows_put p = (if results_file \<noteq> None
                  then map (row_of h) (filter (succeeded h) (tasks_run p)) else []) \<and>
    (results_queue s = [] \<longrightarrow>
       length (results_queue (shared p)) =
         (if results_file \<noteq> None then length (filter (succeeded h) (tasks_run p)) else 0)) \<and>
    (results_queue s = [] \<and> 0 < num_workers s \<and> set_ids_queue s = [] \<and> fault_free sched \<longrightarrow>
       length (results_queue (shared p)) =
         (if results_file \<noteq> None then length (filter (succeeded h) set_ids) else 0))"
proof -
  have inv: "pool_inv h (results_file \<noteq> None) (results_queue s) p"
    unfolding p by (rule pool_inv_run_workers) (rule pool_inv_spawn)
  then have m: "mset (results_queue (shared p)) = mset (results_queue s) + mset (rows_put p)"
    by (simp add: pool_inv_def)
  from inv have r: "rows_put p = (if results_file \<noteq> None
      then map (row_of h) (filter (succeeded h) (tasks_run p)) else [])"
    by (rule rows_put_eq)
  have l: "length (results_queue (shared p)) =
      (if results_file \<noteq> None then length (filter (succeeded h) (tasks_run p)) else 0)"
    if "results_queue s = []"
  proof -
    from m that have "size (mset (results_queue (shared p))) = size (mset (rows_put p))"
      by simp
    with r show ?thesis by (simp split: if_splits)
  qed
  have "length (results_queue (shared p)) =
      (if results_file \<noteq> None then length (filter (succeeded h) set_ids) else 0)"
    if e: "results_queue s = []" and w: "0 < num_workers s" and q: "set_ids_queue s = []"
      and f: "fault_free sched"
  proof -
    from w q f have "mset (tasks_run p) = mset set_ids"
      unfolding p by (rule all_ids_run(2))
    then have "length (filter (succeeded h) (tasks_run p)) = length (filter (succeeded h) set_ids)"
      by (rule length_filter_mset_eq)
    with l [OF e] show ?thesis by (simp only:)
  qed
  with m r l show ?thesis by blast
qed

theorem rows_in_channel_match_successful_tasks_witness:
  "results_queue (init 2) = [] \<and> 0 < num_workers (init 2) \<and> set_ids_queue (init 2) = [] \<and>
   fault_free [Run 1, Run 0] \<and>
   filter (succeeded (compute_raises_on ''2'')) [''1'', ''2'', ''3''] = [''1'', ''3''] \<and>
   length (results_queue (shared (run_workers (compute_raises_on ''2'') [Run 1, Run 0]
      (spawn (seed (Some ''out.csv'') [''1'', ''2'', ''3''] (init 2)))))) = 2 \<and>
   length (results_queue (shared (run_workers (compute_raises_on ''2'') [Run 1, Run 0]
      (spawn (seed None [''1'', ''2'', ''3''] (init 2)))))) = 0"
proof -
  have h1: "results_queue (init 2) = []" and h2: "0 < num_workers (init 2)"
    and h3: "set_ids_queue (init 2) = []"
    by (simp_all add: init_def)
  have h4: "fault_free [Run 1, Run 0]" by (simp add: fault_free_def)
  have f: "filter (succeeded (compute_raises_on ''2'')) [''1'', ''2'', ''3''] = [''1'', ''3'']"
    by code_simp
  from rows_in_channel_match_successful_tasks [OF refl, of "compute_raises_on ''2''"
      "[Run 1, Run 0]" "Some ''out.csv''" "[''1'', ''2'', ''3'']" "init 2"] h1 h2 h3 h4 f
  have a: "length (results_queue (shared (run_workers (compute_raises_on ''2'') [Run 1, Run 0]
      (spawn (seed (Some ''out.csv'') [''1'', ''2'', ''3''] (init 2)))))) = 2"
    by simp
  from rows_in_channel_match_successful_tasks [OF refl, of "compute_raises_on ''2''"
      "[Run 1, Run 0]" None "[''1'', ''2'', ''3'']" "init 2"] h1 h2 h3 h4
  have b: "length (results_queue (shared (run_workers (compute_raises_on ''2'') [Run 1, Run 0]
      (spawn (seed None [''1'', ''2'', ''3''] (init 2)))))) = 0"
    by simp
  from h1 h2 h3 h4 f a b show ?thesis by (intro conjI)
qed

text \<open>
  Claim C9. If retrieving an item from the task queue raises, the worker reports the
  error and leaves its loop instead of retrying, and the failure does not reach the
  caller of \<open>process_ids\<close>: the worker has returned from \<open>process_wrapper\<close>, with the
  report as the last entry of its trace, and stays so whatever runs afterwards.
\<close>

theorem queue_failure_stops_the_worker:
  assumes "i < length (workers p)" and "pc (workers p ! i) = AtGet"
  shows "workers (pool_step h (GetRaises i e lost) p) ! i =
      \<lparr>pc = Done, trace = trace (workers p ! i) @ [ErrRetrieving e]\<rparr> \<and>
    workers (run_workers h sched (pool_step h (GetRaises i e lost) p)) ! i =
      \<lparr>pc = Done, trace = trace (workers p ! i) @ [ErrRetrieving e]\<rparr> \<and>
    terminated (workers (run_workers h sched (pool_step h (GetRaises i e lost) p)) ! i) \<and>
    \<not> crashed (workers (run_workers h sched (pool_step h (GetRaises i e lost) p)) ! i)"
proof -
  let ?q = "pool_step h (GetRaises i e lost) p"
  let ?w = "\<lparr>pc = Done, trace = trace (workers p ! i) @ [ErrRetrieving e]\<rparr>"
  from assms have a: "workers ?q ! i = ?w"
    by (simp add: at_worker_def get_raises_def)
  from assms(1) have "i < length (workers ?q)"
    by (simp only: pool_step_length)
  moreover from a have "pc (workers ?q ! i) = Done" by simp
  ultimately have "workers (run_workers h sched ?q) ! i = workers ?q ! i"
    by (rule done_worker_stays)
  with a have b: "workers (run_workers h sched ?q) ! i = ?w" by (simp only:)
  from a b show ?thesis by (simp add: terminated_def crashed_def)
qed

theorem queue_failure_stops_the_worker_witness:
  "0 < length (workers (run_sched placeholder_hooks [Run 0] (spawn (seed None [''1''] (init 1))))) \<and>
   pc (workers (run_sched placeholder_hooks [Run 0] (spawn (seed None [''1''] (init 1)))) ! 0) = AtGet \<and>
   workers (run_workers placeholder_hooks [Run 0, Run 0]
      (pool_step placeholder_hooks (GetRaises 0 (Exception ''pipe closed'') False)
        (run_sched placeholder_hooks [Run 0] (spawn (seed None [''1''] (init 1)))))) ! 0 =
     \<lparr>pc = Done, trace = [ErrRetrieving (Exception ''pipe closed'')]\<rparr> \<and>
   map_option (\<lambda>r. set_ids_queue (fst r))
     (process_ids placeholder_hooks [Run 0, GetRaises 0 (Exception ''pipe closed'') False]
        [''1''] None (init 1, Map.empty)) = Some [''1'']"
proof -
  let ?p = "run_sched placeholder_hooks [Run 0] (spawn (seed None [''1''] (init 1)))"
  have h1: "0 < length (workers ?p)" by code_simp
  have h2: "pc (workers ?p ! 0) = AtGet" by code_simp
  have t: "trace (workers ?p ! 0) = []" by code_simp
  from queue_failure_stops_the_worker [OF h1 h2, of placeholder_hooks
      "Exception ''pipe closed''" False "[Run 0, Run 0]"] t
  have a: "workers (run_workers placeholder_hooks [Run 0, Run 0]
      (pool_step placeholder_hooks (GetRaises 0 (Exception ''pipe closed'') False) ?p)) ! 0 =
     \<lparr>pc = Done, trace = [ErrRetrieving (Exception ''pipe closed'')]\<rparr>"
    by simp
  have j: "joined (run_workers placeholder_hooks
      [Run 0, GetRaises 0 (Exception ''pipe closed'') False] (spawn (seed None [''1''] (init 1))))"
    by code_simp
  have q: "set_ids_queue (shared (run_workers placeholder_hooks
      [Run 0, GetRaises 0 (Exception ''pipe closed'') False] (spawn (seed None [''1''] (init 1)))))
      = [''1'']"
    by code_simp
  from j q have b: "map_option (\<lambda>r. set_ids_queue (fst r))
     (process_ids placeholder_hooks [Run 0, GetRaises 0 (Exception ''pipe closed'') False]
        [''1''] None (init 1, Map.empty)) = Some [''1'']"
    by (simp add: process_ids_def Let_def maybe_save_results_def)
  from h1 h2 a b show ?thesis by (intro conjI)
qed

text \<open>
  Claim C10. Constructing \<open>IParallelSolver\<close> with no arguments gives a solver with 4
  workers, both queues empty and the unified-save flag cleared; a call of \<open>process_ids\<close>
  leaves the flag set exactly when its \<open>results_file\<close> is not \<open>None\<close>, so the flag stays
  cleared until such a call.
\<close>

theorem constructor_defaults:
  "num_workers IParallelSolver = 4 \<and> results_queue IParallelSolver = [] \<and>
   set_ids_queue IParallelSolver = [] \<and> \<not> save_all_results IParallelSolver \<and>
   save_all_results (seed results_file set_ids s) = (results_file \<noteq> None) \<and>
   (\<forall>r. process_ids h sched set_ids results_file (s, fs) = Some r
      \<longrightarrow> save_all_results (fst r) = (results_file \<noteq> None))"
proof -
  have "save_all_results (fst r) = (results_file \<noteq> None)"
    if "process_ids h sched set_ids results_file (s, fs) = Some r" for r
  proof -
    let ?p = "run_workers h sched (spawn (seed results_file set_ids s))"
    from that have "r = (shared ?p, fs)"
      by (simp add: process_ids_def Let_def maybe_save_results_unchanged split: if_splits)
    then show ?thesis
      by (simp add: run_workers_flag)
  qed
  then show ?thesis
    by (simp add: IParallelSolver_def init_def DEFAULT_NUM_WORKERS_def seed_def)
qed

theorem constructor_defaults_witness:
  "map_option (\<lambda>r. save_all_results (fst r))
      (process_ids placeholder_hooks [] [''1''] None (IParallelSolver, Map.empty)) = Some False \<and>
   map_option (\<lambda>r. save_all_results (fst r))
      (process_ids placeholder_hooks [] [''1''] (Some ''out.csv'') (IParallelSolver, Map.empty)) = Some True"
proof -
  have "joined (run_workers placeholder_hooks [] (spawn (seed None [''1''] IParallelSolver)))"
    by code_simp
  then obtain r where r: "process_ids placeholder_hooks [] [''1''] None (IParallelSolver, Map.empty) = Some r"
    by (simp add: process_ids_def Let_def)
  have "joined (run_workers placeholder_hooks [] (spawn (seed (Some ''out.csv'') [''1''] IParallelSolver)))"
    by code_simp
  then obtain r' where r': "process_ids placeholder_hooks [] [''1''] (Some ''out.csv'') (IParallelSolver, Map.empty) = Some r'"
    by (simp add: process_ids_def Let_def)
  from r constructor_defaults [where h = placeholder_hooks and sched = "[]" and set_ids = "[''1'']"
      and results_file = None and s = IParallelSolver and fs = Map.empty]
  have "save_all_results (fst r) = False" by simp
  moreover from r' constructor_defaults [where h = placeholder_hooks and sched = "[]"
      and set_ids = "[''1'']" and results_file = "Some ''out.csv''" and s = IParallelSolver
      and fs = Map.empty]
  have "save_all_results (fst r') = True" by simp
  ultimately show ?thesis using r r' by simp
qed

end
